theory Spec2Isabelle
  imports Complex_Main "HOL-Library.AList" "HOL-Library.Multiset"
begin

section \<open>JavaScript strings\<close>

text \<open>
  Strings are lists of characters. The scripts use four operations of
  \<^verbatim>\<open>String.prototype\<close>: \<^verbatim>\<open>trim\<close>, \<^verbatim>\<open>split\<close> on a one-character separator,
  \<^verbatim>\<open>includes\<close> and \<^verbatim>\<open>replace\<close> with a global character-class pattern.
  White space is the ECMAScript set restricted to code units below 256.
\<close>

definition isWhiteSpace :: "char \<Rightarrow> bool" where
  "isWhiteSpace c =
     (c = CHR 0x09 \<or> c = CHR 0x0A \<or> c = CHR 0x0B \<or> c = CHR 0x0C \<or> c = CHR 0x0D
      \<or> c = CHR 0x20 \<or> c = CHR 0xA0)"

definition js_trim :: "string \<Rightarrow> string" where
  "js_trim s = rev (dropWhile isWhiteSpace (rev (dropWhile isWhiteSpace s)))"

text \<open>\<^verbatim>\<open>s.split(sep)\<close>: never empty; \<^verbatim>\<open>''.split(',')\<close> is \<^verbatim>\<open>['']\<close>.\<close>

fun js_split :: "char \<Rightarrow> string \<Rightarrow> string list" where
  "js_split sep [] = [[]]"
| "js_split sep (c # cs) =
     (if c = sep then [] # js_split sep cs
      else (case js_split sep cs of
              [] \<Rightarrow> [[c]]
            | w # ws \<Rightarrow> (c # w) # ws))"

text \<open>\<^verbatim>\<open>s.includes(p)\<close>: \<open>p\<close> occurs in \<open>s\<close> as a contiguous substring.\<close>

fun js_includes :: "string \<Rightarrow> string \<Rightarrow> bool" where
  "js_includes [] p = (p = [])"
| "js_includes (c # cs) p = (take (length p) (c # cs) = p \<or> js_includes cs p)"

text \<open>\<^verbatim>\<open>parts.join(sep)\<close>.\<close>

fun js_join :: "char \<Rightarrow> string list \<Rightarrow> string" where
  "js_join sep [] = []"
| "js_join sep [w] = w"
| "js_join sep (w # v # ws) = w @ sep # js_join sep (v # ws)"

definition isDigit :: "char \<Rightarrow> bool" where
  "isDigit c = (c \<in> set ''0123456789'')"

text \<open>
  \<^verbatim>\<open>s.replace(/[^\d.]/g, '')\<close> and \<^verbatim>\<open>s.replace(/[^0-9.]/g, '')\<close>: every character
  that is neither a decimal digit nor a full stop is deleted.
\<close>

definition stripNonNumeric :: "string \<Rightarrow> string" where
  "stripNonNumeric s = filter (\<lambda>c. isDigit c \<or> c = CHR ''.'') s"

section \<open>Objects and results\<close>

text \<open>
  A parsed CSV line is a JavaScript object with string-valued properties: an
  association list in insertion order, \<^verbatim>\<open>obj[k] = v\<close> being \<open>AList.update k v\<close> and
  \<^verbatim>\<open>obj[k]\<close> being \<open>map_of obj k\<close>, with \<open>None\<close> for \<^verbatim>\<open>undefined\<close>.
\<close>

type_synonym obj = "(string \<times> string) list"

text \<open>
  A call returns, throws (every exception of these scripts is a \<^verbatim>\<open>TypeError\<close> from reading
  a property of \<^verbatim>\<open>undefined\<close>), or never returns.
\<close>

datatype 'a outcome = Returns 'a | Throws | Diverges

section \<open>parseCSV\<close>

text \<open>
  \<^verbatim>\<open>headers.forEach((header, i) => { row[header] = values[i] || ''; })\<close>
  on a fresh object.
\<close>

definition valueAt :: "string list \<Rightarrow> nat \<Rightarrow> string" where
  "valueAt vals i = (if i < length vals then vals ! i else [])"

definition mkRow :: "string list \<Rightarrow> string list \<Rightarrow> obj" where
  "mkRow headers vals =
     foldl (\<lambda>row (header, i). AList.update header (valueAt vals i) row) []
       (zip headers [0..<length headers])"

text \<open>
  \<^verbatim>\<open>parseCSV\<close> of \<^verbatim>\<open>browser-autofiller.js\<close> and of the holiday-aware autofiller (the two
  texts are identical): the whole input is trimmed, then every line after the first
  becomes a record.
\<close>

definition parseCSV :: "string \<Rightarrow> obj list" where
  "parseCSV csv =
     (let lns = js_split (CHR 0x0A) (js_trim csv);
          headers = map js_trim (js_split (CHR '','') (hd lns))
      in map (\<lambda>line. mkRow headers (map js_trim (js_split (CHR '','') line))) (tl lns))"

text \<open>
  \<^verbatim>\<open>parseCSV\<close> of the two "CSV Data Filler" scripts: the input is not trimmed, and lines
  that are blank after trimming are filtered out before records are built.
\<close>

definition parseCSV_filler :: "string \<Rightarrow> obj list" where
  "parseCSV_filler csv =
     (let lns = js_split (CHR 0x0A) csv;
          headers = map js_trim (js_split (CHR '','') (hd lns))
      in map (\<lambda>line. mkRow headers (map js_trim (js_split (CHR '','') line)))
           (filter (\<lambda>line. js_trim line \<noteq> []) (tl lns)))"

section \<open>The source index\<close>

text \<open>
  A source record is an object of the array returned by \<^verbatim>\<open>parseCSV\<close>. Objects have an
  identity: \<open>oid\<close> is the position of the object in that array, so two lines with the
  same text are two records.
\<close>

record source_record =
  oid :: nat
  props :: obj

definition getProp :: "source_record \<Rightarrow> string \<Rightarrow> string option" where
  "getProp r k = map_of (props r) k"

definition allocate :: "obj list \<Rightarrow> source_record list" where
  "allocate data = map (\<lambda>(i, p). \<lparr>oid = i, props = p\<rparr>) (zip [0..<length data] data)"

record state =
  childrenByChickAndEnd :: "string \<Rightarrow> source_record list option"
  totalMatches :: nat

definition initialState :: state where
  "initialState = \<lparr>childrenByChickAndEnd = Map.empty, totalMatches = 0\<rparr>"

text \<open>\<^verbatim>\<open>state.childrenByChickAndEnd[key] || []\<close>.\<close>

definition bucket :: "state \<Rightarrow> string \<Rightarrow> source_record list" where
  "bucket st key = (case childrenByChickAndEnd st key of None \<Rightarrow> [] | Some c \<Rightarrow> c)"

text \<open>
  The composite key of a record; \<^verbatim>\<open>row['CHICK'].trim()\<close> throws when the property is
  missing.
\<close>

definition recordKey :: "source_record \<Rightarrow> string option" where
  "recordKey row =
     (case getProp row ''CHICK'' of
        None \<Rightarrow> None
      | Some chick \<Rightarrow>
          (case getProp row ''Claim Until'' of
             None \<Rightarrow> None
           | Some claimUntil \<Rightarrow> Some (js_trim chick @ ''|'' @ js_trim claimUntil)))"

text \<open>
  The \<^verbatim>\<open>data.forEach\<close> of \<^verbatim>\<open>processCSV\<close> (the same in both autofillers). The state is not
  reset: a second upload appends to the buckets of the first.
\<close>

fun processCSV :: "state \<Rightarrow> source_record list \<Rightarrow> state outcome" where
  "processCSV st [] = Returns st"
| "processCSV st (row # data) =
     (case recordKey row of
        None \<Rightarrow> Throws
      | Some key \<Rightarrow>
          (let idx = childrenByChickAndEnd st;
               idx1 = (if idx key = None then idx(key \<mapsto> []) else idx);
               idx2 = idx1(key \<mapsto> the (idx1 key) @ [row])
           in processCSV (st\<lparr>childrenByChickAndEnd := idx2\<rparr>) data))"

section \<open>Properties of the parser\<close>

lemma js_split_nonempty: "js_split sep s \<noteq> []"
  by (induction s) (auto split: list.splits)


lemma mkRow_snoc:
  "mkRow (headers @ [h]) vals = AList.update h (valueAt vals (length headers)) (mkRow headers vals)"
  by (simp add: mkRow_def)

lemma map_of_mkRow_notin: "h \<notin> set headers \<Longrightarrow> map_of (mkRow headers vals) h = None"
  by (induction headers rule: rev_induct) (simp_all add: mkRow_snoc update_conv' mkRow_def)

lemma map_of_mkRow_distinct:
  "distinct headers \<Longrightarrow> i < length headers \<Longrightarrow>
     map_of (mkRow headers vals) (headers ! i) = Some (valueAt vals i)"
proof (induction headers rule: rev_induct)
  case Nil
  then show ?case by simp
next
  case (snoc h hs)
  show ?case
  proof (cases "i < length hs")
    case True
    with snoc.prems have "hs ! i \<noteq> h" by auto
    with True snoc show ?thesis
      by (simp add: mkRow_snoc update_conv' nth_append)
  next
    case False
    with snoc.prems have "i = length hs" by simp
    then show ?thesis
      by (simp add: mkRow_snoc update_conv')
  qed
qed


section \<open>Properties of the index builder\<close>

lemma bucket_update:
  "bucket (st\<lparr>childrenByChickAndEnd := (childrenByChickAndEnd st)(k \<mapsto> c)\<rparr>) key =
     (if key = k then c else bucket st key)"
  by (simp add: bucket_def)

lemma processCSV_step:
  assumes "recordKey row = Some k"
  shows "\<exists>st1. processCSV st (row # data) = processCSV st1 data
           \<and> totalMatches st1 = totalMatches st
           \<and> (\<forall>key. bucket st1 key = (if key = k then bucket st k @ [row] else bucket st key))
           \<and> (\<forall>key. (childrenByChickAndEnd st1 key = None) =
                        (key \<noteq> k \<and> childrenByChickAndEnd st key = None))"
proof -
  let ?st1 = "st\<lparr>childrenByChickAndEnd := (childrenByChickAndEnd st)(k \<mapsto> bucket st k @ [row])\<rparr>"
  have "processCSV st (row # data) = processCSV ?st1 data"
    using assms by (auto simp: Let_def bucket_def split: option.splits)
  moreover have "totalMatches ?st1 = totalMatches st"
    by simp
  moreover have "\<forall>key. bucket ?st1 key = (if key = k then bucket st k @ [row] else bucket st key)"
    by (simp add: bucket_update)
  moreover have "\<forall>key. (childrenByChickAndEnd ?st1 key = None) =
                        (key \<noteq> k \<and> childrenByChickAndEnd st key = None)"
    by simp
  ultimately show ?thesis
    by blast
qed

lemma processCSV_buckets:
  assumes "list_all (\<lambda>r. recordKey r \<noteq> None) data"
  shows "\<exists>st'. processCSV st data = Returns st'
           \<and> totalMatches st' = totalMatches st
           \<and> (\<forall>key. bucket st' key = bucket st key @ filter (\<lambda>r. recordKey r = Some key) data)
           \<and> (\<forall>key. (childrenByChickAndEnd st' key = None) =
                  (childrenByChickAndEnd st key = None
                   \<and> filter (\<lambda>r. recordKey r = Some key) data = []))"
  using assms
proof (induction data arbitrary: st)
  case Nil
  then show ?case by simp
next
  case (Cons row data)
  from Cons.prems obtain k where k: "recordKey row = Some k" by auto
  from processCSV_step[OF k, of st data] obtain st1 where
    s1: "processCSV st (row # data) = processCSV st1 data"
    and t1: "totalMatches st1 = totalMatches st"
    and b1: "\<And>key. bucket st1 key = (if key = k then bucket st k @ [row] else bucket st key)"
    and n1: "\<And>key. (childrenByChickAndEnd st1 key = None) =
                        (key \<noteq> k \<and> childrenByChickAndEnd st key = None)"
    by blast
  from Cons.prems have "list_all (\<lambda>r. recordKey r \<noteq> None) data" by simp
  from Cons.IH[OF this, of st1] obtain st' where
    r: "processCSV st1 data = Returns st'"
    and t: "totalMatches st' = totalMatches st1"
    and b: "\<And>key. bucket st' key = bucket st1 key @ filter (\<lambda>r. recordKey r = Some key) data"
    and n: "\<And>key. (childrenByChickAndEnd st' key = None) =
                  (childrenByChickAndEnd st1 key = None
                   \<and> filter (\<lambda>r. recordKey r = Some key) data = [])"
    by blast
  have "\<And>key. bucket st' key = bucket st key @ filter (\<lambda>r. recordKey r = Some key) (row # data)"
    using b b1 k by simp
  moreover have "\<And>key. (childrenByChickAndEnd st' key = None) =
                  (childrenByChickAndEnd st key = None
                   \<and> filter (\<lambda>r. recordKey r = Some key) (row # data) = [])"
    using n n1 k by auto
  ultimately show ?case
    using s1 r t t1 by auto
qed

subsection \<open>A worked example\<close>

text \<open>
  Two records share the key \<^verbatim>\<open>A12|31/12/2025\<close> and differ in their period start; a third
  has a key of its own.
\<close>

definition exampleObjects :: "obj list" where
  "exampleObjects =
     [[(''CHICK'', ''A12''), (''Claim Until'', ''31/12/2025''), (''Funding Start'', ''01/09/2025''),
       (''Weekly Total'', ''20''), (''Hour rate'', ''EUR 5.50''), (''Note'', [])],
      [(''CHICK'', ''A12''), (''Claim Until'', ''31/12/2025''), (''Funding Start'', ''01/10/2025''),
       (''Weekly Total'', ''25''), (''Hour rate'', ''EUR 6.00''), (''Note'', [])],
      [(''CHICK'', ''B7''), (''Claim Until'', ''30/06/2025''), (''Funding Start'', ''01/07/2025''),
       (''Weekly Total'', ''15''), (''Hour rate'', ''1,204.25 ''), (''Note'', ''Base; moved house'')]]"

definition exampleData :: "source_record list" where
  "exampleData = allocate exampleObjects"

lemma exampleData_keys: "list_all (\<lambda>r. recordKey r \<noteq> None) exampleData"
  by (simp add: exampleData_def exampleObjects_def allocate_def recordKey_def getProp_def)

lemma exampleData_A12:
  "map oid (filter (\<lambda>r. recordKey r = Some ''A12|31/12/2025'') exampleData) = [0, 1]"
  by (simp add: exampleData_def exampleObjects_def allocate_def recordKey_def getProp_def
      js_trim_def isWhiteSpace_def)

text \<open>
  Claim C7. For every sequence of parsed source records (each with an identifier and a
  period end), the index builder returns; it files every record under the key
  trim(identifier) + "|" + trim(period end); the bucket of every key is its old content
  followed by the records of that key in input order; a bucket exists afterwards exactly
  when it existed before or some record has its key; no record is rejected.
\<close>

theorem processCSV_groups_in_input_order:
  assumes "list_all (\<lambda>r. recordKey r \<noteq> None) data"
  shows "\<exists>st'. processCSV st data = Returns st'
           \<and> (\<forall>key. bucket st' key = bucket st key @ filter (\<lambda>r. recordKey r = Some key) data)
           \<and> (\<forall>key. (childrenByChickAndEnd st' key = None) =
                  (childrenByChickAndEnd st key = None
                   \<and> filter (\<lambda>r. recordKey r = Some key) data = []))
           \<and> list_all (\<lambda>r. \<exists>chick claimUntil.
                  getProp r ''CHICK'' = Some chick \<and> getProp r ''Claim Until'' = Some claimUntil
                  \<and> r \<in> set (bucket st' (js_trim chick @ ''|'' @ js_trim claimUntil))) data"
proof -
  from processCSV_buckets[OF assms, of st] obtain st' where
    r: "processCSV st data = Returns st'"
    and b: "\<And>key. bucket st' key = bucket st key @ filter (\<lambda>r. recordKey r = Some key) data"
    and n: "\<And>key. (childrenByChickAndEnd st' key = None) =
                  (childrenByChickAndEnd st key = None
                   \<and> filter (\<lambda>r. recordKey r = Some key) data = [])"
    by blast
  have "\<exists>chick claimUntil.
          getProp x ''CHICK'' = Some chick \<and> getProp x ''Claim Until'' = Some claimUntil
          \<and> x \<in> set (bucket st' (js_trim chick @ ''|'' @ js_trim claimUntil))"
    if x: "x \<in> set data" for x
  proof -
    from assms x have "recordKey x \<noteq> None"
      by (simp add: list_all_iff)
    then obtain chick claimUntil where
      c: "getProp x ''CHICK'' = Some chick" and e: "getProp x ''Claim Until'' = Some claimUntil"
      by (auto simp: recordKey_def split: option.splits)
    then have "recordKey x = Some (js_trim chick @ ''|'' @ js_trim claimUntil)"
      by (simp add: recordKey_def)
    with x have "x \<in> set (bucket st' (js_trim chick @ ''|'' @ js_trim claimUntil))"
      by (simp add: b)
    with c e show ?thesis by blast
  qed
  then have "list_all (\<lambda>r. \<exists>chick claimUntil.
                  getProp r ''CHICK'' = Some chick \<and> getProp r ''Claim Until'' = Some claimUntil
                  \<and> r \<in> set (bucket st' (js_trim chick @ ''|'' @ js_trim claimUntil))) data"
    by (simp add: list_all_iff)
  with r b n show ?thesis by blast
qed

theorem processCSV_groups_in_input_order_witness:
  "list_all (\<lambda>r. recordKey r \<noteq> None) exampleData
   \<and> (\<exists>st'. processCSV initialState exampleData = Returns st'
          \<and> map oid (bucket st' ''A12|31/12/2025'') = [0, 1])"
proof -
  from processCSV_groups_in_input_order[OF exampleData_keys, of initialState] obtain st' where
    r: "processCSV initialState exampleData = Returns st'"
    and b: "\<And>key. bucket st' key =
              bucket initialState key @ filter (\<lambda>r. recordKey r = Some key) exampleData"
    by blast
  have "bucket initialState ''A12|31/12/2025'' = []"
    by (simp add: bucket_def initialState_def)
  then have "map oid (bucket st' ''A12|31/12/2025'') = [0, 1]"
    by (simp add: b exampleData_A12)
  with r exampleData_keys show ?thesis by simp
qed

section \<open>Dates\<close>

text \<open>
  A \<^verbatim>\<open>Date\<close> object holds a time value: milliseconds since the epoch in UTC, or NaN for
  an Invalid Date (\<open>None\<close>). Local time is UTC plus a fixed offset \<open>tza\<close> in milliseconds
  (no daylight-saving change inside the periods walked). Day numbers and years follow
  the ECMAScript definitions \<^verbatim>\<open>Day\<close>, \<^verbatim>\<open>DayFromYear\<close>, \<^verbatim>\<open>YearFromTime\<close>, \<^verbatim>\<open>MakeDay\<close> and
  \<^verbatim>\<open>WeekDay\<close>; the range check \<^verbatim>\<open>TimeClip\<close> is left out (it matters beyond year 275000).
\<close>

type_synonym jsdate = "int option"

definition msPerDay :: int where
  "msPerDay = 1000 * 60 * 60 * 24"

definition DayFromYear :: "int \<Rightarrow> int" where
  "DayFromYear y = 365 * (y - 1970) + (y - 1969) div 4 - (y - 1901) div 100 + (y - 1601) div 400"

definition InLeapYear :: "int \<Rightarrow> bool" where
  "InLeapYear y =
     (if y mod 4 \<noteq> 0 then False else if y mod 100 \<noteq> 0 then True else y mod 400 = 0)"

lemma div_succ_le: "0 < c \<Longrightarrow> ((a::int) + 1) div c \<le> a div c + 1"
proof -
  assume c: "0 < c"
  then have "(a + 1) div c \<le> (a + c) div c"
    by (intro zdiv_mono1) simp_all
  also from c have "(a + c) div c = a div c + 1"
    by simp
  finally show ?thesis .
qed

lemma DayFromYear_step: "DayFromYear y < DayFromYear (y + 1)"
proof -
  define a1 a2 b1 b2 c1 c2 where
    "a1 = (y - 1969) div 4" and "a2 = (y + 1 - 1969) div 4" and
    "b1 = (y - 1901) div 100" and "b2 = (y + 1 - 1901) div 100" and
    "c1 = (y - 1601) div 400" and "c2 = (y + 1 - 1601) div 400"
  have a: "a1 \<le> a2"
    unfolding a1_def a2_def by (intro zdiv_mono1) simp_all
  have b: "b2 \<le> b1 + 1"
    unfolding b1_def b2_def using div_succ_le[of 100 "y - 1901"] by (simp add: algebra_simps)
  have c: "c1 \<le> c2"
    unfolding c1_def c2_def by (intro zdiv_mono1) simp_all
  have "365 * (y - 1970) + a1 - b1 + c1 < 365 * (y + 1 - 1970) + a2 - b2 + c2"
    using a b c by (simp add: algebra_simps)
  then show ?thesis
    unfolding DayFromYear_def a1_def a2_def b1_def b2_def c1_def c2_def .
qed

text \<open>
  \<^verbatim>\<open>YearFromTime\<close>: the largest year whose first day is not after the given day, found by
  searching upwards from a year that is early enough.
\<close>

function yearSearch :: "int \<Rightarrow> int \<Rightarrow> int" where
  "yearSearch d y = (if DayFromYear (y + 1) \<le> d then yearSearch d (y + 1) else y)"
  by pat_completeness auto
termination
proof (relation "measure (\<lambda>(d, y). nat (d + 1 - DayFromYear (y + 1)))")
  show "wf (measure (\<lambda>(d, y). nat (d + 1 - DayFromYear (y + 1))))"
    by simp
next
  fix d y :: int
  assume "DayFromYear (y + 1) \<le> d"
  moreover have "DayFromYear (y + 1) < DayFromYear (y + 1 + 1)"
    by (rule DayFromYear_step)
  ultimately show "((d, y + 1), (d, y)) \<in> measure (\<lambda>(d, y). nat (d + 1 - DayFromYear (y + 1)))"
    by simp
qed

declare yearSearch.simps [simp del]

lemma yearSearch_next: "DayFromYear (y + 1) \<le> d \<Longrightarrow> yearSearch d y = yearSearch d (y + 1)"
  by (subst yearSearch.simps) simp

lemma yearSearch_stop: "\<not> DayFromYear (y + 1) \<le> d \<Longrightarrow> yearSearch d y = y"
  by (subst yearSearch.simps) simp

definition YearFromDay :: "int \<Rightarrow> int" where
  "YearFromDay d = yearSearch d (1970 + (if 0 \<le> d then d div 366 else d div 365))"

text \<open>Days from the start of the year to the start of month \<open>m\<close> (0 is January).\<close>

definition monthStart :: "bool \<Rightarrow> nat \<Rightarrow> int" where
  "monthStart leap m =
     [0, 31, 59, 90, 120, 151, 181, 212, 243, 273, 304, 334] ! m
       + (if leap \<and> 2 \<le> m then 1 else 0)"

definition MakeDay :: "int \<Rightarrow> nat \<Rightarrow> int \<Rightarrow> int" where
  "MakeDay y m dt = DayFromYear y + monthStart (InLeapYear y) m + dt - 1"

definition daysInMonth :: "int \<Rightarrow> nat \<Rightarrow> int" where
  "daysInMonth y m =
     (if m = 1 then (if InLeapYear y then 29 else 28)
      else [31, 28, 31, 30, 31, 30, 31, 31, 30, 31, 30, 31] ! m)"

text \<open>
  \<^verbatim>\<open>new Date(year, month, 1)\<close>: local midnight of the first of the month. A year from 0 to
  99 denotes 1900 + year, as the \<^verbatim>\<open>Date\<close> constructor prescribes.
\<close>

definition newDate :: "int \<Rightarrow> int option \<Rightarrow> nat \<Rightarrow> int \<Rightarrow> jsdate" where
  "newDate tza year m dt =
     (case year of
        None \<Rightarrow> None
      | Some y \<Rightarrow>
          (let yr = (if 0 \<le> y \<and> y \<le> 99 then 1900 + y else y)
           in Some (MakeDay yr m dt * msPerDay - tza)))"

definition localDay :: "int \<Rightarrow> int \<Rightarrow> int" where
  "localDay tza t = (t + tza) div msPerDay"

definition getFullYear :: "int \<Rightarrow> jsdate \<Rightarrow> int option" where
  "getFullYear tza date = map_option (\<lambda>t. YearFromDay (localDay tza t)) date"

text \<open>\<^verbatim>\<open>getDay()\<close>: 0 is Sunday, 1 is Monday; NaN for an Invalid Date.\<close>

definition getDay :: "int \<Rightarrow> jsdate \<Rightarrow> int option" where
  "getDay tza date = map_option (\<lambda>t. (localDay tza t + 4) mod 7) date"

text \<open>
  \<^verbatim>\<open>result.setDate(result.getDate() - 1)\<close>: \<^verbatim>\<open>MakeDay\<close> with the day of the month less one
  is the previous day (day 0 of a month is the last day of the month before), and the time
  within the day is kept. An Invalid Date stays invalid.
\<close>

definition setDatePrevious :: "jsdate \<Rightarrow> jsdate" where
  "setDatePrevious date = map_option (\<lambda>t. t - msPerDay) date"

text \<open>Comparison of two \<^verbatim>\<open>Date\<close> objects by time value; every comparison with NaN is false.\<close>

definition date_ge :: "jsdate \<Rightarrow> jsdate \<Rightarrow> bool" where
  "date_ge a b = (case a of None \<Rightarrow> False | Some x \<Rightarrow> (case b of None \<Rightarrow> False | Some y \<Rightarrow> y \<le> x))"

definition date_le :: "jsdate \<Rightarrow> jsdate \<Rightarrow> bool" where
  "date_le a b = (case a of None \<Rightarrow> False | Some x \<Rightarrow> (case b of None \<Rightarrow> False | Some y \<Rightarrow> x \<le> y))"

definition date_lt :: "jsdate \<Rightarrow> jsdate \<Rightarrow> bool" where
  "date_lt a b = (case a of None \<Rightarrow> False | Some x \<Rightarrow> (case b of None \<Rightarrow> False | Some y \<Rightarrow> x < y))"

subsection \<open>Parsing\<close>

definition digitValue :: "char \<Rightarrow> nat" where
  "digitValue c = length (takeWhile (\<lambda>x. x \<noteq> c) ''0123456789'')"

definition digitsValue :: "string \<Rightarrow> nat" where
  "digitsValue s = foldl (\<lambda>n c. 10 * n + digitValue c) 0 s"

text \<open>
  \<^verbatim>\<open>new Date(string)\<close> on the date-only form \<^verbatim>\<open>YYYY-MM-DD\<close> of the ECMAScript date-time
  format: midnight UTC of that day, for a day that exists. What an engine makes of any
  other string is left to the engine; here it is an Invalid Date.
\<close>

definition parseISODate :: "string \<Rightarrow> jsdate" where
  "parseISODate s =
     (if length s = 10 \<and> s ! 4 = CHR ''-'' \<and> s ! 7 = CHR ''-''
         \<and> list_all isDigit (take 4 s) \<and> list_all isDigit (take 2 (drop 5 s))
         \<and> list_all isDigit (drop 8 s)
      then (let y = int (digitsValue (take 4 s));
                m = digitsValue (take 2 (drop 5 s));
                d = int (digitsValue (drop 8 s))
            in if 1 \<le> m \<and> m \<le> 12 \<and> 1 \<le> d \<and> d \<le> daysInMonth y (m - 1)
               then Some (MakeDay y (m - 1) d * msPerDay)
               else None)
      else None)"

text \<open>
  \<^verbatim>\<open>const [dd, mm, yyyy] = str.split('/'); return new Date(`${yyyy}-${mm}-${dd}`);\<close>
  A missing part is \<^verbatim>\<open>undefined\<close> and prints as such in the template.
\<close>

definition partAt :: "string list \<Rightarrow> nat \<Rightarrow> string" where
  "partAt parts i = (if i < length parts then parts ! i else ''undefined'')"

definition parseDate :: "string \<Rightarrow> jsdate" where
  "parseDate str =
     (let parts = js_split (CHR ''/'') str;
          dd = partAt parts 0; mm = partAt parts 1; yyyy = partAt parts 2
      in parseISODate (yyyy @ ''-'' @ mm @ ''-'' @ dd))"

subsection \<open>The holiday calendar\<close>

definition schoolHolidays :: "(string \<times> (string \<times> string \<times> string) list) list" where
  "schoolHolidays =
     [(''2024-2025'',
        [(''October Holidays'', ''28/10/2024'', ''01/11/2024''),
         (''Christmas Holidays'', ''23/12/2024'', ''03/01/2025''),
         (''February Holidays'', ''17/02/2025'', ''21/02/2025''),
         (''Easter Holidays'', ''14/04/2025'', ''25/04/2025'')]),
      (''2025-2026'',
        [(''October Holidays'', ''27/10/2025'', ''31/10/2025''),
         (''Christmas Holidays'', ''22/12/2025'', ''02/01/2026''),
         (''February Holidays'', ''16/02/2026'', ''20/02/2026''),
         (''Easter Holidays'', ''30/03/2026'', ''10/04/2026'')])]"

text \<open>
  \<^verbatim>\<open>while (result.getDay() !== 1) result.setDate(result.getDate() - 1);\<close>
  The loop need not end: \<open>None\<close> is the call that never returns.
\<close>

partial_function (option) getFirstMondayBeforeOrOn :: "int \<Rightarrow> jsdate \<Rightarrow> jsdate option" where
  "getFirstMondayBeforeOrOn tza result =
     (if getDay tza result \<noteq> Some 1
      then getFirstMondayBeforeOrOn tza (setDatePrevious result)
      else Some result)"

text \<open>The two nested \<^verbatim>\<open>for\<close> loops over the table, returning at the first range that holds the date.\<close>

fun scanYear :: "jsdate \<Rightarrow> (string \<times> string \<times> string) list \<Rightarrow> string option" where
  "scanYear date [] = None"
| "scanYear date ((name, startStr, endStr) # rest) =
     (if date_ge date (parseDate startStr) \<and> date_le date (parseDate endStr)
      then Some name
      else scanYear date rest)"

fun scanHolidays :: "jsdate \<Rightarrow> (string \<times> (string \<times> string \<times> string) list) list \<Rightarrow> string option" where
  "scanHolidays date [] = None"
| "scanHolidays date ((year, entries) # rest) =
     (case scanYear date entries of
        Some name \<Rightarrow> Some name
      | None \<Rightarrow> scanHolidays date rest)"

text \<open>\<^verbatim>\<open>getHolidayName(date)\<close>: the outer \<open>None\<close> is a call that never returns, the inner one is \<^verbatim>\<open>null\<close>.\<close>

definition getHolidayName :: "int \<Rightarrow> jsdate \<Rightarrow> string option option" where
  "getHolidayName tza date =
     (case getFirstMondayBeforeOrOn tza (newDate tza (getFullYear tza date) 6 1) of
        None \<Rightarrow> None
      | Some summerStart \<Rightarrow>
          (case getFirstMondayBeforeOrOn tza (newDate tza (getFullYear tza date) 8 1) of
             None \<Rightarrow> None
           | Some summerEnd \<Rightarrow>
               Some (if date_ge date summerStart \<and> date_lt date summerEnd
                     then Some ''Summer Holidays''
                     else scanHolidays date schoolHolidays)))"

subsection \<open>The backward walk to Monday\<close>

lemma localDay_previous: "localDay tza (t - msPerDay) = localDay tza t - 1"
  by (simp add: localDay_def msPerDay_def)

lemma monday_iff: "(((x::int) + 4) mod 7 = 1) = ((x + 3) mod 7 = 0)"
proof -
  have "((x + 4) mod 7 = 1 mod 7) = (7 dvd (x + 4 - 1))"
    by (rule mod_eq_dvd_iff)
  then show ?thesis
    by (simp add: mod_eq_0_iff_dvd add.commute)
qed

lemma mod7_pred:
  assumes "(a::int) mod 7 = int n + 1"
  shows "(a - 1) mod 7 = int n"
proof -
  have "a mod 7 < 7" by simp
  with assms have n: "int n < 7" by linarith
  have "(a - 1) mod 7 = (a mod 7 - 1) mod 7"
    by (simp add: mod_diff_left_eq)
  also have "\<dots> = int n mod 7"
    using assms by simp
  also have "\<dots> = int n"
    using n by simp
  finally show ?thesis .
qed

lemma getFirstMondayBeforeOrOn_valid:
  "getFirstMondayBeforeOrOn tza (Some t) =
     Some (Some (t - msPerDay * ((localDay tza t + 3) mod 7)))"
proof (induction "nat ((localDay tza t + 3) mod 7)" arbitrary: t)
  case 0
  then have z: "(localDay tza t + 3) mod 7 = 0" by simp
  then have "(localDay tza t + 4) mod 7 = 1" by (simp only: monday_iff)
  with z show ?case
    by (subst getFirstMondayBeforeOrOn.simps) (simp add: getDay_def)
next
  case (Suc n)
  then have m: "(localDay tza t + 3) mod 7 = int n + 1" by linarith
  then have nd: "(localDay tza t + 4) mod 7 \<noteq> 1" by (simp add: monday_iff)
  have "(localDay tza t + 3 - 1) mod 7 = int n"
    using m by (rule mod7_pred)
  then have p: "(localDay tza (t - msPerDay) + 3) mod 7 = int n"
    by (simp add: localDay_previous)
  then have "n = nat ((localDay tza (t - msPerDay) + 3) mod 7)" by simp
  from Suc.hyps(1)[OF this] have ih: "getFirstMondayBeforeOrOn tza (Some (t - msPerDay)) =
     Some (Some (t - msPerDay - msPerDay * int n))"
    by (simp only: p)
  have "getFirstMondayBeforeOrOn tza (Some t) = getFirstMondayBeforeOrOn tza (Some (t - msPerDay))"
    using nd by (subst getFirstMondayBeforeOrOn.simps) (simp add: getDay_def setDatePrevious_def)
  also note ih
  also have "t - msPerDay - msPerDay * int n = t - msPerDay * ((localDay tza t + 3) mod 7)"
    by (simp only: m) (simp add: algebra_simps)
  finally show ?case .
qed

lemma getFirstMondayBeforeOrOn_returns_valid:
  "getFirstMondayBeforeOrOn tza d = Some r \<Longrightarrow> d \<noteq> None"
proof (induction rule: getFirstMondayBeforeOrOn.raw_induct[rotated 1, consumes 1])
  case (1 f tza d r)
  show ?case
  proof (cases d)
    case None
    with 1(2) have "f tza None = Some r"
      by (simp add: getDay_def setDatePrevious_def)
    from 1(1)[OF this] show ?thesis by simp
  next
    case (Some t)
    then show ?thesis by simp
  qed
qed

lemma getFirstMondayBeforeOrOn_invalid: "getFirstMondayBeforeOrOn tza None = None"
  using getFirstMondayBeforeOrOn_returns_valid[of tza None]
  by (cases "getFirstMondayBeforeOrOn tza None") auto

lemmas date_eval =
  getFullYear_def parseDate_def parseISODate_def partAt_def isDigit_def digitsValue_def
  digitValue_def daysInMonth_def MakeDay_def monthStart_def InLeapYear_def DayFromYear_def
  msPerDay_def localDay_def YearFromDay_def yearSearch_next yearSearch_stop newDate_def
  date_ge_def date_le_def date_lt_def

section \<open>Destination rows\<close>

text \<open>
  A table row of the host page, as far as the scripts read and write it. Each of the five
  inputs is the element that the row's selector finds (\<^verbatim>\<open>input[name*="[date_from]"]\<close>
  and so on), holding its \<^verbatim>\<open>value\<close>, or \<open>None\<close> when the row has no such element; the
  five selectors are taken to find five different elements. \<open>lastTd\<close> is the list of
  badges appended to \<^verbatim>\<open>td:last-child\<close>, or \<open>None\<close> when the row has no cell. The four
  style properties are those the scripts assign. The \<^verbatim>\<open>change\<close> events and the scrolling
  are not modelled: the host page's listeners are taken not to write the five inputs.
\<close>

record row =
  chick_number :: "string option"
  date_to :: "string option"
  date_from :: "string option"
  weekly_total :: "string option"
  hour_rate :: "string option"
  lastTd :: "string list option"
  borderTop :: string
  fontWeight :: string
  borderLeft :: string
  backgroundColor :: string

text \<open>
  \<^verbatim>\<open>setInput(selector, value)\<close>: \<^verbatim>\<open>if (el) { el.value = value || ''; ... }\<close>.
  The first argument is the element's current value, the result its value afterwards.
\<close>

definition setInput :: "string option \<Rightarrow> string option \<Rightarrow> string option" where
  "setInput el v =
     (case el of
        None \<Rightarrow> None
      | Some old \<Rightarrow> Some (case v of None \<Rightarrow> [] | Some s \<Rightarrow> s))"

text \<open>The three \<^verbatim>\<open>setInput\<close> calls that open \<^verbatim>\<open>fillFields\<close> in both autofillers.\<close>

definition writeInputs :: "row \<Rightarrow> source_record \<Rightarrow> row" where
  "writeInputs r data =
     r\<lparr>date_from := setInput (date_from r) (getProp data ''Funding Start''),
       weekly_total := setInput (weekly_total r) (getProp data ''Weekly Total''),
       hour_rate := setInput (hour_rate r) (map_option stripNonNumeric (getProp data ''Hour rate''))\<rparr>"

text \<open>\<^verbatim>\<open>fillFields\<close> of \<^verbatim>\<open>browser-autofiller.js\<close>.\<close>

definition fillFields_autofiller :: "row \<Rightarrow> source_record \<Rightarrow> row" where
  "fillFields_autofiller r data =
     (writeInputs r data)\<lparr>backgroundColor := ''rgba(76, 175, 80, 0.15)''\<rparr>"

text \<open>
  \<^verbatim>\<open>isOldPeriod = endDate && ((new Date() - endDate) / (1000 * 60 * 60 * 24) > 90)\<close>.
  A \<^verbatim>\<open>Date\<close> object is truthy even when invalid; the difference is then NaN and the
  comparison false. The quotient is taken in the rationals.
\<close>

definition isOldPeriod :: "int \<Rightarrow> jsdate \<Rightarrow> bool" where
  "isOldPeriod now endDate =
     (case endDate of
        None \<Rightarrow> False
      | Some e \<Rightarrow> (90::rat) < of_int (now - e) / (1000 * 60 * 60 * 24))"

text \<open>\<^verbatim>\<open>data.Note?.includes('Base')\<close>.\<close>

definition isBasePeriod :: "source_record \<Rightarrow> bool" where
  "isBasePeriod data =
     (case getProp data ''Note'' of None \<Rightarrow> False | Some n \<Rightarrow> js_includes n ''Base'')"

text \<open>The notes badge: the text after the first semicolon of the note, trimmed, if any.\<close>

definition noteBadge :: "source_record \<Rightarrow> string list" where
  "noteBadge data =
     (case getProp data ''Note'' of
        None \<Rightarrow> []
      | Some n \<Rightarrow>
          (if n \<noteq> [] \<and> js_includes n '';''
           then (let note = js_trim (js_join (CHR '';'') (tl (js_split (CHR '';'') n)))
                 in if note \<noteq> [] then [note] else [])
           else []))"

text \<open>
  \<^verbatim>\<open>fillFields\<close> of the holiday-aware autofiller. \<open>now\<close> is the clock read by
  \<^verbatim>\<open>new Date()\<close>. \<^verbatim>\<open>parseDate\<close> throws on a missing property (\<^verbatim>\<open>str.split\<close> of
  \<^verbatim>\<open>undefined\<close>), after the three inputs are written. The test \<^verbatim>\<open>if (startDate)\<close> always
  succeeds, a \<^verbatim>\<open>Date\<close> object being truthy, so the holiday lookup runs for every row
  that has a last cell.
\<close>

definition fillFields :: "int \<Rightarrow> int \<Rightarrow> row \<Rightarrow> source_record \<Rightarrow> row outcome" where
  "fillFields now tza r data =
     (let r1 = writeInputs r data
      in case getProp data ''Funding Start'' of
           None \<Rightarrow> Throws
         | Some fundingStart \<Rightarrow>
             (case getProp data ''Claim Until'' of
                None \<Rightarrow> Throws
              | Some claimUntil \<Rightarrow>
                  (let startDate = parseDate fundingStart;
                       endDate = parseDate claimUntil;
                       r2 = (if isBasePeriod data
                             then r1\<lparr>fontWeight := ''bold'', borderLeft := ''4px solid purple''\<rparr>
                             else if isOldPeriod now endDate
                             then r1\<lparr>backgroundColor := ''rgba(255, 0, 0, 0.15)''\<rparr>
                             else r1\<lparr>backgroundColor := ''rgba(76, 175, 80, 0.15)''\<rparr>)
                   in case lastTd r2 of
                        None \<Rightarrow> Returns r2
                      | Some badges \<Rightarrow>
                          (case getHolidayName tza startDate of
                             None \<Rightarrow> Diverges
                           | Some holiday \<Rightarrow>
                               Returns (r2\<lparr>lastTd := Some (badges @ noteBadge data
                                  @ (case holiday of None \<Rightarrow> [] | Some h \<Rightarrow> [h]))\<rparr>)))))"

section \<open>The row resolver\<close>

text \<open>\<^verbatim>\<open>row.querySelector(...)?.value.trim()\<close>, and \<^verbatim>\<open>!x\<close> for a string or \<^verbatim>\<open>undefined\<close>.\<close>

definition trimmedValue :: "string option \<Rightarrow> string option" where
  "trimmedValue el = map_option js_trim el"

definition falsy :: "string option \<Rightarrow> bool" where
  "falsy x = (case x of None \<Rightarrow> True | Some s \<Rightarrow> s = [])"

text \<open>
  \<^verbatim>\<open>candidates.find(c => c['Funding Start']?.trim() === startValue)\<close>: the position of the
  first candidate that satisfies the test. Two \<^verbatim>\<open>undefined\<close> are equal.
\<close>

definition startMatches :: "string option \<Rightarrow> source_record \<Rightarrow> bool" where
  "startMatches startValue c = (map_option js_trim (getProp c ''Funding Start'') = startValue)"

text \<open>\<^verbatim>\<open>exact || candidates[0]\<close> on a non-empty array.\<close>

definition chooseCandidate :: "string option \<Rightarrow> source_record list \<Rightarrow> source_record" where
  "chooseCandidate startValue candidates =
     (case find (startMatches startValue) candidates of
        None \<Rightarrow> hd candidates
      | Some exact \<Rightarrow> exact)"

text \<open>\<^verbatim>\<open>xs.indexOf(x)\<close>: the first position holding \<open>x\<close>, or -1.\<close>

fun indexOf :: "'a list \<Rightarrow> 'a \<Rightarrow> int" where
  "indexOf [] x = - 1"
| "indexOf (y # ys) x = (if y = x then 0 else (let i = indexOf ys x in if i < 0 then - 1 else i + 1))"

text \<open>\<^verbatim>\<open>xs.splice(start, 1)\<close>: a negative start counts from the end.\<close>

definition splice1 :: "'a list \<Rightarrow> int \<Rightarrow> 'a list" where
  "splice1 xs start =
     (let n = int (length xs);
          s = (if start < 0 then max (n + start) 0 else min start n)
      in take (nat s) xs @ drop (nat s + 1) xs)"

text \<open>
  The state after a match: the counter is incremented, then the record is spliced out of
  the array that the index holds under the key.
\<close>

definition consume :: "state \<Rightarrow> string \<Rightarrow> source_record list \<Rightarrow> int \<Rightarrow> state" where
  "consume st key candidates start =
     st\<lparr>totalMatches := totalMatches st + 1,
        childrenByChickAndEnd := (childrenByChickAndEnd st)(key \<mapsto> splice1 candidates start)\<rparr>"

text \<open>
  The result of a traversal carries, besides the state and the rows, the list of bindings
  made: the row position, the key and the record of each call of \<^verbatim>\<open>fillFields\<close> that
  returned. The list is not program state; it names what the traversal did.
\<close>

type_synonym binding = "nat \<times> string \<times> source_record"

type_synonym traversal = "state \<times> row list \<times> binding list"

definition bound :: "binding \<Rightarrow> traversal outcome \<Rightarrow> traversal outcome" where
  "bound b res =
     (case res of
        Returns (st, rows, bs) \<Rightarrow> Returns (st, rows, b # bs)
      | Throws \<Rightarrow> Throws
      | Diverges \<Rightarrow> Diverges)"

text \<open>
  \<^verbatim>\<open>processNextRow(rows, i, previousChick)\<close> of the holiday-aware autofiller. \<open>clock i\<close>
  is the time at which row \<open>i\<close> is filled. The timer between two rows is a plain call.
  An exception in \<^verbatim>\<open>fillFields\<close> leaves the handler before the counter, the splice and
  the timer: the traversal ends there.
\<close>

function processNextRow ::
  "(nat \<Rightarrow> int) \<Rightarrow> int \<Rightarrow> state \<Rightarrow> row list \<Rightarrow> nat \<Rightarrow> string option \<Rightarrow> traversal outcome"
where
  "processNextRow clock tza st rows i previousChick =
     (if length rows \<le> i then Returns (st, rows, [])
      else
        (let r = rows ! i;
             chick = trimmedValue (chick_number r);
             claimUntil = trimmedValue (date_to r)
         in if falsy chick \<or> falsy claimUntil
            then processNextRow clock tza st rows (i + 1) previousChick
            else
              (let r1 = (if chick \<noteq> previousChick then r\<lparr>borderTop := ''3px solid #444''\<rparr> else r);
                   key = the chick @ ''|'' @ the claimUntil;
                   candidates = bucket st key
               in if length candidates = 1
                  then (case fillFields (clock i) tza r1 (candidates ! 0) of
                          Returns r2 \<Rightarrow>
                            bound (i, key, candidates ! 0)
                              (processNextRow clock tza (consume st key candidates 0)
                                 (rows[i := r2]) (i + 1) chick)
                        | Throws \<Rightarrow> Throws
                        | Diverges \<Rightarrow> Diverges)
                  else if 1 < length candidates
                  then (let startValue = trimmedValue (date_from r1);
                            toFill = chooseCandidate startValue candidates
                        in case fillFields (clock i) tza r1 toFill of
                             Returns r2 \<Rightarrow>
                               bound (i, key, toFill)
                                 (processNextRow clock tza
                                    (consume st key candidates (indexOf candidates toFill))
                                    (rows[i := r2]) (i + 1) chick)
                           | Throws \<Rightarrow> Throws
                           | Diverges \<Rightarrow> Diverges)
                  else processNextRow clock tza st (rows[i := r1]) (i + 1) chick)))"
  by pat_completeness auto
termination
  by (relation "measure (\<lambda>(clock, tza, st, rows, i, previousChick). length rows - i)") auto

declare processNextRow.simps [simp del]

text \<open>
  \<^verbatim>\<open>processNextRow(rows, i)\<close> of \<^verbatim>\<open>browser-autofiller.js\<close>: no border, no splice; every
  branch that fills increments the counter.
\<close>

function processNextRow_autofiller :: "state \<Rightarrow> row list \<Rightarrow> nat \<Rightarrow> traversal" where
  "processNextRow_autofiller st rows i =
     (if length rows \<le> i then (st, rows, [])
      else
        (let r = rows ! i;
             chick = trimmedValue (chick_number r);
             claimUntil = trimmedValue (date_to r)
         in if falsy chick \<or> falsy claimUntil
            then processNextRow_autofiller st rows (i + 1)
            else
              (let key = the chick @ ''|'' @ the claimUntil;
                   candidates = bucket st key
               in if length candidates = 1
                  then (case processNextRow_autofiller (st\<lparr>totalMatches := totalMatches st + 1\<rparr>)
                               (rows[i := fillFields_autofiller r (candidates ! 0)]) (i + 1) of
                          (st', rows', bs) \<Rightarrow> (st', rows', (i, key, candidates ! 0) # bs))
                  else if 1 < length candidates
                  then (let startValue = trimmedValue (date_from r);
                            toFill = chooseCandidate startValue candidates
                        in case processNextRow_autofiller (st\<lparr>totalMatches := totalMatches st + 1\<rparr>)
                                  (rows[i := fillFields_autofiller r toFill]) (i + 1) of
                             (st', rows', bs) \<Rightarrow> (st', rows', (i, key, toFill) # bs))
                  else processNextRow_autofiller st rows (i + 1))))"
  by pat_completeness auto
termination
  by (relation "measure (\<lambda>(st, rows, i). length rows - i)") auto

declare processNextRow_autofiller.simps [simp del]

section \<open>Properties of the row resolver\<close>

subsection \<open>Choosing and removing a candidate\<close>

lemma chooseCandidate_single: "chooseCandidate sv [c] = c"
  by (simp add: chooseCandidate_def)

lemma chooseCandidate_mem: "cands \<noteq> [] \<Longrightarrow> chooseCandidate sv cands \<in> set cands"
  by (auto simp: chooseCandidate_def find_Some_iff split: option.splits)

lemma chooseCandidate_first_match:
  assumes "j < length cands" and "startMatches sv (cands ! j)"
    and "\<forall>j'<j. \<not> startMatches sv (cands ! j')"
  shows "chooseCandidate sv cands = cands ! j"
proof -
  from assms have "find (startMatches sv) cands = Some (cands ! j)"
    by (auto simp: find_Some_iff)
  then show ?thesis
    by (simp add: chooseCandidate_def)
qed

lemma chooseCandidate_no_match:
  assumes "\<forall>j<length cands. \<not> startMatches sv (cands ! j)"
  shows "chooseCandidate sv cands = hd cands"
proof -
  from assms have "find (startMatches sv) cands = None"
    by (auto simp: find_None_iff in_set_conv_nth)
  then show ?thesis
    by (simp add: chooseCandidate_def)
qed

lemma indexOf_position:
  "x \<in> set xs \<Longrightarrow>
     \<exists>n. indexOf xs x = int n \<and> n < length xs \<and> take n xs @ drop (Suc n) xs = remove1 x xs"
proof (induction xs)
  case Nil
  then show ?case by simp
next
  case (Cons y ys)
  show ?case
  proof (cases "y = x")
    case True
    then have "indexOf (y # ys) x = int 0 \<and> 0 < length (y # ys)
                 \<and> take 0 (y # ys) @ drop (Suc 0) (y # ys) = remove1 x (y # ys)"
      by simp
    then show ?thesis by blast
  next
    case False
    with Cons.prems have "x \<in> set ys" by simp
    from Cons.IH[OF this] obtain n where
      n: "indexOf ys x = int n" "n < length ys" "take n ys @ drop (Suc n) ys = remove1 x ys"
      by blast
    with False have "indexOf (y # ys) x = int (Suc n) \<and> Suc n < length (y # ys)
                 \<and> take (Suc n) (y # ys) @ drop (Suc (Suc n)) (y # ys) = remove1 x (y # ys)"
      by (simp add: Let_def)
    then show ?thesis by blast
  qed
qed

lemma splice1_indexOf: "x \<in> set xs \<Longrightarrow> splice1 xs (indexOf xs x) = remove1 x xs"
proof -
  assume "x \<in> set xs"
  from indexOf_position[OF this] obtain n where
    n: "indexOf xs x = int n" "n < length xs" "take n xs @ drop (Suc n) xs = remove1 x xs"
    by blast
  then show ?thesis
    by (simp add: splice1_def Let_def min_def)
qed

lemma splice1_first: "xs \<noteq> [] \<Longrightarrow> splice1 xs 0 = remove1 (hd xs) xs"
  by (cases xs) (simp_all add: splice1_def)

subsection \<open>One row at a time\<close>

text \<open>
  The key that the resolver computes for a row, \<open>None\<close> for a row that it skips; the row
  with the group border drawn; and the state after a record is consumed.
\<close>

definition blank :: "row \<Rightarrow> bool" where
  "blank r = (falsy (trimmedValue (chick_number r)) \<or> falsy (trimmedValue (date_to r)))"

definition rowKey :: "row \<Rightarrow> string option" where
  "rowKey r =
     (if blank r then None
      else Some (the (trimmedValue (chick_number r)) @ ''|'' @ the (trimmedValue (date_to r))))"

definition bordered :: "string option \<Rightarrow> row \<Rightarrow> row" where
  "bordered previousChick r =
     (if trimmedValue (chick_number r) \<noteq> previousChick
      then r\<lparr>borderTop := ''3px solid #444''\<rparr> else r)"

definition consumed :: "state \<Rightarrow> string \<Rightarrow> source_record \<Rightarrow> state" where
  "consumed st key c =
     st\<lparr>totalMatches := totalMatches st + 1,
        childrenByChickAndEnd := (childrenByChickAndEnd st)(key \<mapsto> remove1 c (bucket st key))\<rparr>"

lemma processNextRow_done:
  "length rows \<le> i \<Longrightarrow> processNextRow clock tza st rows i prev = Returns (st, rows, [])"
  by (subst processNextRow.simps) simp

lemma processNextRow_blank:
  "i < length rows \<Longrightarrow> blank (rows ! i) \<Longrightarrow>
     processNextRow clock tza st rows i prev = processNextRow clock tza st rows (i + 1) prev"
  by (subst processNextRow.simps) (simp add: blank_def Let_def)

lemma processNextRow_no_candidate:
  "i < length rows \<Longrightarrow> rowKey (rows ! i) = Some key \<Longrightarrow> bucket st key = [] \<Longrightarrow>
     processNextRow clock tza st rows i prev =
       processNextRow clock tza st (rows[i := bordered prev (rows ! i)]) (i + 1)
         (trimmedValue (chick_number (rows ! i)))"
  by (subst processNextRow.simps)
    (auto simp: rowKey_def blank_def bordered_def Let_def split: if_splits)

lemma processNextRow_candidates:
  assumes "i < length rows" and "rowKey (rows ! i) = Some key" and "bucket st key \<noteq> []"
  shows "processNextRow clock tza st rows i prev =
     (case fillFields (clock i) tza (bordered prev (rows ! i))
             (chooseCandidate (trimmedValue (date_from (rows ! i))) (bucket st key)) of
        Returns r2 \<Rightarrow>
          bound (i, key, chooseCandidate (trimmedValue (date_from (rows ! i))) (bucket st key))
            (processNextRow clock tza
               (consumed st key (chooseCandidate (trimmedValue (date_from (rows ! i))) (bucket st key)))
               (rows[i := r2]) (i + 1) (trimmedValue (chick_number (rows ! i))))
      | Throws \<Rightarrow> Throws
      | Diverges \<Rightarrow> Diverges)"
proof -
  let ?cands = "bucket st key"
  let ?r1 = "bordered prev (rows ! i)"
  have df: "date_from ?r1 = date_from (rows ! i)"
    by (simp add: bordered_def)
  from assms(2) have nb: "\<not> blank (rows ! i)"
    and key: "the (trimmedValue (chick_number (rows ! i))) @ ''|''
                      @ the (trimmedValue (date_to (rows ! i))) = key"
    by (auto simp: rowKey_def split: if_splits)
  show ?thesis
  proof (cases "length ?cands = 1")
    case True
    then obtain c where c: "?cands = [c]"
      by (cases ?cands) auto
    then have "consume st key ?cands 0 = consumed st key c"
      by (simp add: consume_def consumed_def splice1_def)
    with c nb key assms(1) show ?thesis
      by (subst processNextRow.simps)
        (simp add: blank_def Let_def bordered_def chooseCandidate_single cong: outcome.case_cong)
  next
    case False
    with assms(3) have many: "1 < length ?cands"
      by (cases ?cands) auto
    let ?c = "chooseCandidate (trimmedValue (date_from (rows ! i))) ?cands"
    have "?c \<in> set ?cands"
      using assms(3) by (rule chooseCandidate_mem)
    then have "consume st key ?cands (indexOf ?cands ?c) = consumed st key ?c"
      by (simp add: consume_def consumed_def splice1_indexOf)
    with many False nb key assms(1) df show ?thesis
      by (subst processNextRow.simps)
        (simp add: blank_def Let_def bordered_def cong: outcome.case_cong)
  qed
qed

subsection \<open>What a fill writes, and when it returns\<close>

text \<open>
  A record is \<open>dated\<close> when it has a period start that parses and a period end; the fill
  of any row from a dated record returns. \<open>styled\<close> is the classification step of
  \<^verbatim>\<open>fillFields\<close>; \<open>summerStart\<close> and \<open>summerEnd\<close> are the two Mondays that
  \<^verbatim>\<open>getHolidayName\<close> computes for the year of a valid date.
\<close>

lemma bordered_fields:
  "chick_number (bordered prev r) = chick_number r" "date_to (bordered prev r) = date_to r"
  "date_from (bordered prev r) = date_from r" "weekly_total (bordered prev r) = weekly_total r"
  "hour_rate (bordered prev r) = hour_rate r" "lastTd (bordered prev r) = lastTd r"
  by (simp_all add: bordered_def)

lemma rowKey_cong:
  "chick_number r' = chick_number r \<Longrightarrow> date_to r' = date_to r \<Longrightarrow> rowKey r' = rowKey r"
  by (simp add: rowKey_def blank_def)

lemma blank_rowKey: "blank r = (rowKey r = None)"
  by (simp add: rowKey_def)

definition dated :: "source_record \<Rightarrow> bool" where
  "dated c =
     (case getProp c ''Funding Start'' of
        None \<Rightarrow> False
      | Some fundingStart \<Rightarrow>
          parseDate fundingStart \<noteq> None \<and> getProp c ''Claim Until'' \<noteq> None)"

definition summerStart :: "int \<Rightarrow> int \<Rightarrow> int" where
  "summerStart tza t =
     (let july1 = the (newDate tza (getFullYear tza (Some t)) 6 1)
      in july1 - msPerDay * ((localDay tza july1 + 3) mod 7))"

definition summerEnd :: "int \<Rightarrow> int \<Rightarrow> int" where
  "summerEnd tza t =
     (let september1 = the (newDate tza (getFullYear tza (Some t)) 8 1)
      in september1 - msPerDay * ((localDay tza september1 + 3) mod 7))"

lemma getHolidayName_valid:
  "getHolidayName tza (Some t) =
     Some (if summerStart tza t \<le> t \<and> t < summerEnd tza t then Some ''Summer Holidays''
           else scanHolidays (Some t) schoolHolidays)"
  by (simp add: getHolidayName_def newDate_def getFullYear_def Let_def
      getFirstMondayBeforeOrOn_valid summerStart_def summerEnd_def date_ge_def date_lt_def)


definition styled :: "int \<Rightarrow> row \<Rightarrow> source_record \<Rightarrow> row" where
  "styled now r1 data =
     (if isBasePeriod data
      then r1\<lparr>fontWeight := ''bold'', borderLeft := ''4px solid purple''\<rparr>
      else if isOldPeriod now (parseDate (the (getProp data ''Claim Until'')))
      then r1\<lparr>backgroundColor := ''rgba(255, 0, 0, 0.15)''\<rparr>
      else r1\<lparr>backgroundColor := ''rgba(76, 175, 80, 0.15)''\<rparr>)"

lemma styled_fields:
  "chick_number (styled now r1 data) = chick_number r1" "date_to (styled now r1 data) = date_to r1"
  "date_from (styled now r1 data) = date_from r1" "weekly_total (styled now r1 data) = weekly_total r1"
  "hour_rate (styled now r1 data) = hour_rate r1" "lastTd (styled now r1 data) = lastTd r1"
  "borderTop (styled now r1 data) = borderTop r1"
  by (simp_all add: styled_def)

lemma fillFields_eq:
  "fillFields now tza r data =
     (case getProp data ''Funding Start'' of
        None \<Rightarrow> Throws
      | Some fundingStart \<Rightarrow>
          (case getProp data ''Claim Until'' of
             None \<Rightarrow> Throws
           | Some claimUntil \<Rightarrow>
               (case lastTd r of
                  None \<Rightarrow> Returns (styled now (writeInputs r data) data)
                | Some badges \<Rightarrow>
                    (case getHolidayName tza (parseDate fundingStart) of
                       None \<Rightarrow> Diverges
                     | Some holiday \<Rightarrow>
                         Returns ((styled now (writeInputs r data) data)
                            \<lparr>lastTd := Some (badges @ noteBadge data
                                @ (case holiday of None \<Rightarrow> [] | Some h \<Rightarrow> [h]))\<rparr>)))))"
proof -
  have l: "lastTd (writeInputs r data) = lastTd r"
    by (simp add: writeInputs_def)
  show ?thesis
    unfolding fillFields_def Let_def
    by (simp add: styled_def l split: option.splits)
qed


lemma writeInputs_fields:
  "chick_number (writeInputs r c) = chick_number r" "date_to (writeInputs r c) = date_to r"
  "date_from (writeInputs r c) = setInput (date_from r) (getProp c ''Funding Start'')"
  "weekly_total (writeInputs r c) = setInput (weekly_total r) (getProp c ''Weekly Total'')"
  "hour_rate (writeInputs r c) =
     setInput (hour_rate r) (map_option stripNonNumeric (getProp c ''Hour rate''))"
  "lastTd (writeInputs r c) = lastTd r" "borderTop (writeInputs r c) = borderTop r"
  by (simp_all add: writeInputs_def)

lemma fillFields_shape:
  assumes "fillFields now tza r c = Returns r2"
  shows "\<exists>lt. r2 = (styled now (writeInputs r c) c)\<lparr>lastTd := lt\<rparr>"
proof -
  let ?s = "styled now (writeInputs r c) c"
  from assms consider (plain) "r2 = ?s" | (badged) lt where "r2 = ?s\<lparr>lastTd := lt\<rparr>"
    unfolding fillFields_eq by (auto split: option.splits)
  then show ?thesis
  proof cases
    case plain
    then have "r2 = ?s\<lparr>lastTd := lastTd ?s\<rparr>" by simp
    then show ?thesis ..
  next
    case badged
    then show ?thesis ..
  qed
qed

lemma fillFields_Returns:
  assumes "fillFields now tza r c = Returns r2"
  shows "chick_number r2 = chick_number r" and "date_to r2 = date_to r"
    and "date_from r2 = setInput (date_from r) (getProp c ''Funding Start'')"
    and "weekly_total r2 = setInput (weekly_total r) (getProp c ''Weekly Total'')"
    and "hour_rate r2 = setInput (hour_rate r) (map_option stripNonNumeric (getProp c ''Hour rate''))"
    and "borderTop r2 = borderTop r"
proof -
  from fillFields_shape[OF assms] obtain lt where
    "r2 = (styled now (writeInputs r c) c)\<lparr>lastTd := lt\<rparr>" ..
  then show "chick_number r2 = chick_number r" and "date_to r2 = date_to r"
    and "date_from r2 = setInput (date_from r) (getProp c ''Funding Start'')"
    and "weekly_total r2 = setInput (weekly_total r) (getProp c ''Weekly Total'')"
    and "hour_rate r2 = setInput (hour_rate r) (map_option stripNonNumeric (getProp c ''Hour rate''))"
    and "borderTop r2 = borderTop r"
    by (simp_all add: styled_fields writeInputs_fields)
qed

lemma fillFields_dated:
  assumes "dated c"
  shows "\<exists>r2. fillFields now tza r c = Returns r2"
proof -
  from assms obtain fs cu t where
    "getProp c ''Funding Start'' = Some fs" "getProp c ''Claim Until'' = Some cu"
    "parseDate fs = Some t"
    by (auto simp: dated_def split: option.splits)
  then show ?thesis
    unfolding fillFields_eq by (simp add: getHolidayName_valid split: option.splits)
qed

subsection \<open>Induction over a traversal\<close>

lemma bound_Returns:
  "(bound b res = Returns (st', rows', bs)) =
     (\<exists>bs'. res = Returns (st', rows', bs') \<and> bs = b # bs')"
  by (cases res) (auto simp: bound_def)

lemma processNextRow_fill_Returns:
  assumes "i < length rows" and "rowKey (rows ! i) = Some key" and "bucket st key \<noteq> []"
    and "processNextRow clock tza st rows i prev = Returns (st', rows', bs)"
  obtains r2 bs' where
    "fillFields (clock i) tza (bordered prev (rows ! i))
       (chooseCandidate (trimmedValue (date_from (rows ! i))) (bucket st key)) = Returns r2"
    and "processNextRow clock tza
           (consumed st key (chooseCandidate (trimmedValue (date_from (rows ! i))) (bucket st key)))
           (rows[i := r2]) (i + 1) (trimmedValue (chick_number (rows ! i)))
         = Returns (st', rows', bs')"
    and "bs = (i, key, chooseCandidate (trimmedValue (date_from (rows ! i))) (bucket st key)) # bs'"
  using assms(4) unfolding processNextRow_candidates[OF assms(1-3)]
  by (auto simp: bound_Returns split: outcome.splits)

lemma processNextRow_cases_induct [case_names finished skipped unmatched filled]:
  assumes "\<And>st rows i prev. length rows \<le> i \<Longrightarrow> P st rows i prev"
    and "\<And>st rows i prev. i < length rows \<Longrightarrow> blank (rows ! i) \<Longrightarrow>
           P st rows (i + 1) prev \<Longrightarrow> P st rows i prev"
    and "\<And>st rows i prev key. i < length rows \<Longrightarrow> rowKey (rows ! i) = Some key \<Longrightarrow>
           bucket st key = [] \<Longrightarrow>
           P st (rows[i := bordered prev (rows ! i)]) (i + 1) (trimmedValue (chick_number (rows ! i))) \<Longrightarrow>
           P st rows i prev"
    and "\<And>st rows i prev key. i < length rows \<Longrightarrow> rowKey (rows ! i) = Some key \<Longrightarrow>
           bucket st key \<noteq> [] \<Longrightarrow>
           (\<And>r2. P (consumed st key (chooseCandidate (trimmedValue (date_from (rows ! i))) (bucket st key)))
                   (rows[i := r2]) (i + 1) (trimmedValue (chick_number (rows ! i)))) \<Longrightarrow>
           P st rows i prev"
  shows "P st rows i prev"
proof (induction "length rows - i" arbitrary: st rows i prev)
  case 0
  then show ?case using assms(1) by simp
next
  case (Suc n)
  then have i: "i < length rows" by simp
  have ih: "P st' rows' (i + 1) prev'" if "length rows' = length rows" for st' rows' prev'
    using Suc.hyps(1)[of rows' "i + 1" st' prev'] Suc.hyps(2) that by simp
  show ?case
  proof (cases "rowKey (rows ! i)")
    case None
    then have "blank (rows ! i)" by (simp add: blank_rowKey)
    with i ih show ?thesis by (rule_tac assms(2)) simp_all
  next
    case (Some key)
    show ?thesis
    proof (cases "bucket st key = []")
      case True
      with i Some ih show ?thesis by (rule_tac key=key in assms(3)) simp_all
    next
      case False
      with i Some ih show ?thesis by (rule_tac key=key in assms(4)) simp_all
    qed
  qed
qed

subsection \<open>Invariants of a traversal\<close>

lemma bucket_consumed:
  "bucket (consumed st key c) k = (if k = key then remove1 c (bucket st key) else bucket st k)"
  by (simp add: consumed_def bucket_def)

lemma totalMatches_consumed: "totalMatches (consumed st key c) = totalMatches st + 1"
  by (simp add: consumed_def)

lemma traversal_length:
  "processNextRow clock tza st rows i prev = Returns (st', rows', bs) \<Longrightarrow>
     length rows' = length rows"
proof (induction st rows i prev arbitrary: bs rule: processNextRow_cases_induct)
  case (finished st rows i prev)
  then show ?case by (simp add: processNextRow_done)
next
  case (skipped st rows i prev)
  then show ?case by (simp add: processNextRow_blank)
next
  case (unmatched st rows i prev key)
  then show ?case by (simp add: processNextRow_no_candidate)
next
  case (filled st rows i prev key)
  from filled(1-3) filled(5) obtain r2 bs' where
    "processNextRow clock tza
       (consumed st key (chooseCandidate (trimmedValue (date_from (rows ! i))) (bucket st key)))
       (rows[i := r2]) (i + 1) (trimmedValue (chick_number (rows ! i))) = Returns (st', rows', bs')"
    by (rule processNextRow_fill_Returns)
  from filled(4)[OF this] show ?case by simp
qed

lemma traversal_count:
  "processNextRow clock tza st rows i prev = Returns (st', rows', bs) \<Longrightarrow>
     totalMatches st' = totalMatches st + length bs \<and> length bs \<le> length rows - i
     \<and> list_all (\<lambda>b. i \<le> fst b \<and> fst b < length rows) bs"
proof (induction st rows i prev arbitrary: bs rule: processNextRow_cases_induct)
  case (finished st rows i prev)
  then show ?case by (simp add: processNextRow_done)
next
  case (skipped st rows i prev)
  then have "totalMatches st' = totalMatches st + length bs \<and> length bs \<le> length rows - (i + 1)
     \<and> list_all (\<lambda>b. i + 1 \<le> fst b \<and> fst b < length rows) bs"
    by (simp add: processNextRow_blank)
  then show ?case
    by (auto simp: list_all_iff)
next
  case (unmatched st rows i prev key)
  then have "totalMatches st' = totalMatches st + length bs \<and> length bs \<le> length rows - (i + 1)
     \<and> list_all (\<lambda>b. i + 1 \<le> fst b \<and> fst b < length rows) bs"
    by (simp add: processNextRow_no_candidate)
  then show ?case
    by (auto simp: list_all_iff)
next
  case (filled st rows i prev key)
  let ?c = "chooseCandidate (trimmedValue (date_from (rows ! i))) (bucket st key)"
  from filled(1-3) filled(5) obtain r2 bs' where
    rec: "processNextRow clock tza (consumed st key ?c) (rows[i := r2]) (i + 1)
            (trimmedValue (chick_number (rows ! i))) = Returns (st', rows', bs')"
    and bs: "bs = (i, key, ?c) # bs'"
    by (rule processNextRow_fill_Returns)
  from filled(4)[OF rec] have
    "totalMatches st' = totalMatches st + 1 + length bs' \<and> length bs' \<le> length rows - (i + 1)
     \<and> list_all (\<lambda>b. i + 1 \<le> fst b \<and> fst b < length rows) bs'"
    by (simp add: totalMatches_consumed)
  with bs filled(1) show ?case
    by (auto simp: list_all_iff)
qed

lemma map_update_same:
  assumes "f y = f (xs ! i)"
  shows "map f (xs[i := y]) = map f xs"
proof (cases "i < length xs")
  case True
  then have "map f xs ! i = f (xs ! i)" by simp
  then have "(map f xs)[i := f (xs ! i)] = map f xs"
    by (metis list_update_id)
  with assms show ?thesis
    by (simp add: map_update)
next
  case False
  then have "xs[i := y] = xs" by (simp add: list_update_beyond)
  then show ?thesis by simp
qed

text \<open>The identifier and the period end of every row are the same before and after.\<close>

lemma traversal_keys:
  "processNextRow clock tza st rows i prev = Returns (st', rows', bs) \<Longrightarrow>
     map chick_number rows' = map chick_number rows \<and> map date_to rows' = map date_to rows"
proof (induction st rows i prev arbitrary: bs rule: processNextRow_cases_induct)
  case (finished st rows i prev)
  then show ?case by (simp add: processNextRow_done)
next
  case (skipped st rows i prev)
  then show ?case by (simp add: processNextRow_blank)
next
  case (unmatched st rows i prev key)
  then have "map chick_number rows' = map chick_number (rows[i := bordered prev (rows ! i)])
     \<and> map date_to rows' = map date_to (rows[i := bordered prev (rows ! i)])"
    by (simp add: processNextRow_no_candidate)
  then show ?case
    by (simp add: map_update_same bordered_fields)
next
  case (filled st rows i prev key)
  let ?c = "chooseCandidate (trimmedValue (date_from (rows ! i))) (bucket st key)"
  from filled(1-3) filled(5) obtain r2 bs' where
    fill: "fillFields (clock i) tza (bordered prev (rows ! i)) ?c = Returns r2"
    and rec: "processNextRow clock tza (consumed st key ?c) (rows[i := r2]) (i + 1)
            (trimmedValue (chick_number (rows ! i))) = Returns (st', rows', bs')"
    by (rule processNextRow_fill_Returns)
  from fillFields_Returns(1,2)[OF fill] have
    "chick_number r2 = chick_number (rows ! i)" "date_to r2 = date_to (rows ! i)"
    by (simp_all add: bordered_fields)
  with filled(4)[OF rec] show ?case
    by (simp add: map_update_same)
qed

lemma traversal_rowKey:
  assumes "processNextRow clock tza st rows i prev = Returns (st', rows', bs)"
    and "j < length rows"
  shows "rowKey (rows' ! j) = rowKey (rows ! j)"
proof -
  from traversal_keys[OF assms(1)] have
    m: "map chick_number rows' = map chick_number rows" "map date_to rows' = map date_to rows"
    by simp_all
  from traversal_length[OF assms(1)] assms(2) have j: "j < length rows'" by simp
  from m(1) j assms(2) have "chick_number (rows' ! j) = chick_number (rows ! j)"
    by (metis nth_map)
  moreover from m(2) j assms(2) have "date_to (rows' ! j) = date_to (rows ! j)"
    by (metis nth_map)
  ultimately show ?thesis
    by (rule rowKey_cong)
qed

text \<open>Rows before the current position are not touched.\<close>

lemma traversal_prefix:
  "processNextRow clock tza st rows i prev = Returns (st', rows', bs) \<Longrightarrow>
     j < i \<Longrightarrow> rows' ! j = rows ! j"
proof (induction st rows i prev arbitrary: bs rule: processNextRow_cases_induct)
  case (finished st rows i prev)
  then show ?case by (simp add: processNextRow_done)
next
  case (skipped st rows i prev)
  then show ?case by (simp add: processNextRow_blank)
next
  case (unmatched st rows i prev key)
  then have "rows' ! j = (rows[i := bordered prev (rows ! i)]) ! j"
    by (simp add: processNextRow_no_candidate)
  with unmatched(6) show ?case by simp
next
  case (filled st rows i prev key)
  let ?c = "chooseCandidate (trimmedValue (date_from (rows ! i))) (bucket st key)"
  from filled(1-3) filled(5) obtain r2 bs' where
    rec: "processNextRow clock tza (consumed st key ?c) (rows[i := r2]) (i + 1)
            (trimmedValue (chick_number (rows ! i))) = Returns (st', rows', bs')"
    by (rule processNextRow_fill_Returns)
  from filled(4)[OF rec] filled(6) have "rows' ! j = (rows[i := r2]) ! j" by simp
  with filled(6) show ?case by simp
qed

subsection \<open>Bindings\<close>

text \<open>
  The records bound under a key, the three inputs of a row that a fill writes, and the
  value they take when the row is filled from a record.
\<close>

definition bindingsFor :: "string \<Rightarrow> binding list \<Rightarrow> source_record list" where
  "bindingsFor k bs = map (\<lambda>b. snd (snd b)) (filter (\<lambda>b. fst (snd b) = k) bs)"

definition inputs :: "row \<Rightarrow> string option \<times> string option \<times> string option" where
  "inputs r = (date_from r, weekly_total r, hour_rate r)"

lemma inputs_bordered: "inputs (bordered prev r) = inputs r"
  by (simp add: inputs_def bordered_fields)

lemma inputs_fillFields:
  "fillFields now tza r c = Returns r2 \<Longrightarrow> inputs r2 = inputs (writeInputs r c)"
  by (simp add: inputs_def fillFields_Returns writeInputs_fields)

lemma inputs_writeInputs_bordered: "inputs (writeInputs (bordered prev r) c) = inputs (writeInputs r c)"
  by (simp add: inputs_def writeInputs_fields bordered_fields)

text \<open>
  Every binding pairs a row with a record filed under the row's own key, and the row
  then holds the record's values.
\<close>

lemma traversal_bindings:
  "processNextRow clock tza st rows i prev = Returns (st', rows', bs) \<Longrightarrow>
     list_all (\<lambda>b. rowKey (rows ! fst b) = Some (fst (snd b))
                  \<and> inputs (rows' ! fst b) = inputs (writeInputs (rows ! fst b) (snd (snd b)))) bs"
proof (induction st rows i prev arbitrary: bs rule: processNextRow_cases_induct)
  case (finished st rows i prev)
  then show ?case by (simp add: processNextRow_done)
next
  case (skipped st rows i prev)
  then show ?case by (simp add: processNextRow_blank)
next
  case (unmatched st rows i prev key)
  let ?rows1 = "rows[i := bordered prev (rows ! i)]"
  from unmatched have rec: "processNextRow clock tza st ?rows1 (i + 1)
      (trimmedValue (chick_number (rows ! i))) = Returns (st', rows', bs)"
    by (simp add: processNextRow_no_candidate)
  from traversal_count[OF rec] have pos: "list_all (\<lambda>b. i + 1 \<le> fst b) bs"
    by (simp add: list_all_iff)
  have same: "?rows1 ! fst b = rows ! fst b" if "b \<in> set bs" for b
  proof -
    from pos that have "fst b \<noteq> i" by (auto simp: list_all_iff)
    then show ?thesis by simp
  qed
  from unmatched(4)[OF rec] have
    "\<forall>b\<in>set bs. rowKey (?rows1 ! fst b) = Some (fst (snd b))
        \<and> inputs (rows' ! fst b) = inputs (writeInputs (?rows1 ! fst b) (snd (snd b)))"
    by (simp add: list_all_iff)
  with same show ?case
    by (simp add: list_all_iff)
next
  case (filled st rows i prev key)
  let ?c = "chooseCandidate (trimmedValue (date_from (rows ! i))) (bucket st key)"
  from filled(1-3) filled(5) obtain r2 bs' where
    fill: "fillFields (clock i) tza (bordered prev (rows ! i)) ?c = Returns r2"
    and rec: "processNextRow clock tza (consumed st key ?c) (rows[i := r2]) (i + 1)
            (trimmedValue (chick_number (rows ! i))) = Returns (st', rows', bs')"
    and bs: "bs = (i, key, ?c) # bs'"
    by (rule processNextRow_fill_Returns)
  from traversal_count[OF rec] have pos: "list_all (\<lambda>b. i + 1 \<le> fst b) bs'"
    by (simp add: list_all_iff)
  have same: "(rows[i := r2]) ! fst b = rows ! fst b" if "b \<in> set bs'" for b
  proof -
    from pos that have "fst b \<noteq> i" by (auto simp: list_all_iff)
    then show ?thesis by simp
  qed
  from filled(4)[OF rec] have
    "\<forall>b\<in>set bs'. rowKey ((rows[i := r2]) ! fst b) = Some (fst (snd b))
        \<and> inputs (rows' ! fst b) = inputs (writeInputs ((rows[i := r2]) ! fst b) (snd (snd b)))"
    by (simp add: list_all_iff)
  with same have tail:
    "list_all (\<lambda>b. rowKey (rows ! fst b) = Some (fst (snd b))
                  \<and> inputs (rows' ! fst b) = inputs (writeInputs (rows ! fst b) (snd (snd b)))) bs'"
    by (simp add: list_all_iff)
  from traversal_prefix[OF rec, of i] filled(1) have "rows' ! i = r2" by simp
  with inputs_fillFields[OF fill] have "inputs (rows' ! i) = inputs (writeInputs (rows ! i) ?c)"
    by (simp add: inputs_writeInputs_bordered)
  with tail bs filled(2) show ?case by simp
qed

text \<open>
  A row that is not bound keeps its three inputs; a row that the resolver skips is not
  bound and is the same row afterwards.
\<close>

lemma traversal_unbound:
  "processNextRow clock tza st rows i prev = Returns (st', rows', bs) \<Longrightarrow>
     j < length rows \<Longrightarrow> j \<notin> fst ` set bs \<Longrightarrow> inputs (rows' ! j) = inputs (rows ! j)"
proof (induction st rows i prev arbitrary: bs rule: processNextRow_cases_induct)
  case (finished st rows i prev)
  then show ?case by (simp add: processNextRow_done)
next
  case (skipped st rows i prev)
  then have rec: "processNextRow clock tza st rows (i + 1) prev = Returns (st', rows', bs)"
    by (simp add: processNextRow_blank)
  with skipped show ?case by simp
next
  case (unmatched st rows i prev key)
  let ?rows1 = "rows[i := bordered prev (rows ! i)]"
  from unmatched have rec: "processNextRow clock tza st ?rows1 (i + 1)
      (trimmedValue (chick_number (rows ! i))) = Returns (st', rows', bs)"
    by (simp add: processNextRow_no_candidate)
  from unmatched(4)[OF rec] unmatched(6,7) have "inputs (rows' ! j) = inputs (?rows1 ! j)"
    by simp
  with unmatched(1) show ?case
    by (cases "j = i") (simp_all add: inputs_bordered)
next
  case (filled st rows i prev key)
  let ?c = "chooseCandidate (trimmedValue (date_from (rows ! i))) (bucket st key)"
  from filled(1-3) filled(5) obtain r2 bs' where
    rec: "processNextRow clock tza (consumed st key ?c) (rows[i := r2]) (i + 1)
            (trimmedValue (chick_number (rows ! i))) = Returns (st', rows', bs')"
    and bs: "bs = (i, key, ?c) # bs'"
    by (rule processNextRow_fill_Returns)
  from bs filled(7) have ji: "j \<noteq> i" and "j \<notin> fst ` set bs'" by auto
  with filled(4)[OF rec] filled(6) have "inputs (rows' ! j) = inputs ((rows[i := r2]) ! j)"
    by simp
  with ji show ?case by simp
qed

lemma traversal_blank:
  "processNextRow clock tza st rows i prev = Returns (st', rows', bs) \<Longrightarrow>
     j < length rows \<Longrightarrow> blank (rows ! j) \<Longrightarrow> rows' ! j = rows ! j"
proof (induction st rows i prev arbitrary: bs rule: processNextRow_cases_induct)
  case (finished st rows i prev)
  then show ?case by (simp add: processNextRow_done)
next
  case (skipped st rows i prev)
  then have rec: "processNextRow clock tza st rows (i + 1) prev = Returns (st', rows', bs)"
    by (simp add: processNextRow_blank)
  with skipped show ?case by simp
next
  case (unmatched st rows i prev key)
  let ?rows1 = "rows[i := bordered prev (rows ! i)]"
  from unmatched have rec: "processNextRow clock tza st ?rows1 (i + 1)
      (trimmedValue (chick_number (rows ! i))) = Returns (st', rows', bs)"
    by (simp add: processNextRow_no_candidate)
  from unmatched(2,7) have ji: "j \<noteq> i" by (auto simp: blank_rowKey)
  with unmatched(4)[OF rec] unmatched(6,7) show ?case by simp
next
  case (filled st rows i prev key)
  let ?c = "chooseCandidate (trimmedValue (date_from (rows ! i))) (bucket st key)"
  from filled(1-3) filled(5) obtain r2 bs' where
    rec: "processNextRow clock tza (consumed st key ?c) (rows[i := r2]) (i + 1)
            (trimmedValue (chick_number (rows ! i))) = Returns (st', rows', bs')"
    by (rule processNextRow_fill_Returns)
  from filled(2,7) have ji: "j \<noteq> i" by (auto simp: blank_rowKey)
  with filled(4)[OF rec] filled(6,7) show ?case by simp
qed

lemma traversal_blank_unbound:
  assumes "processNextRow clock tza st rows i prev = Returns (st', rows', bs)"
    and "blank (rows ! j)"
  shows "j \<notin> fst ` set bs"
proof
  assume "j \<in> fst ` set bs"
  then obtain b where b: "b \<in> set bs" "fst b = j" by auto
  with traversal_bindings[OF assms(1)] have "rowKey (rows ! j) = Some (fst (snd b))"
    by (auto simp: list_all_iff)
  with assms(2) show False
    by (simp add: blank_rowKey)
qed

text \<open>
  Consumption: what a bucket held before is what it holds afterwards together with the
  records bound under its key.
\<close>

lemma bindingsFor_Cons:
  "bindingsFor k ((j, key, c) # bs) = (if key = k then c # bindingsFor k bs else bindingsFor k bs)"
  by (simp add: bindingsFor_def)

lemma traversal_buckets:
  "processNextRow clock tza st rows i prev = Returns (st', rows', bs) \<Longrightarrow>
     mset (bucket st k) = mset (bindingsFor k bs) + mset (bucket st' k)"
proof (induction st rows i prev arbitrary: bs rule: processNextRow_cases_induct)
  case (finished st rows i prev)
  then show ?case by (simp add: processNextRow_done bindingsFor_def)
next
  case (skipped st rows i prev)
  then show ?case by (simp add: processNextRow_blank)
next
  case (unmatched st rows i prev key)
  then show ?case by (simp add: processNextRow_no_candidate)
next
  case (filled st rows i prev key)
  let ?c = "chooseCandidate (trimmedValue (date_from (rows ! i))) (bucket st key)"
  from filled(1-3) filled(5) obtain r2 bs' where
    rec: "processNextRow clock tza (consumed st key ?c) (rows[i := r2]) (i + 1)
            (trimmedValue (chick_number (rows ! i))) = Returns (st', rows', bs')"
    and bs: "bs = (i, key, ?c) # bs'"
    by (rule processNextRow_fill_Returns)
  from filled(3) have mem: "?c \<in> set (bucket st key)"
    by (rule chooseCandidate_mem)
  from filled(4)[OF rec] have ih:
    "mset (bucket (consumed st key ?c) k) = mset (bindingsFor k bs') + mset (bucket st' k)" .
  show ?case
  proof (cases "k = key")
    case True
    from ih True have r: "mset (remove1 ?c (bucket st key))
                            = mset (bindingsFor key bs') + mset (bucket st' key)"
      by (simp only: bucket_consumed simp_thms if_True)
    from mem have "add_mset ?c (mset (remove1 ?c (bucket st key))) = mset (bucket st key)"
      by simp
    then have "mset (bucket st key) = add_mset ?c (mset (remove1 ?c (bucket st key)))"
      by (rule sym)
    also have "\<dots> = add_mset ?c (mset (bindingsFor key bs') + mset (bucket st' key))"
      by (simp only: r)
    also have "\<dots> = mset (bindingsFor key bs) + mset (bucket st' key)"
      by (simp add: bs bindingsFor_Cons)
    finally show ?thesis
      using True by (simp only:)
  next
    case False
    from ih False have "mset (bucket st k) = mset (bindingsFor k bs') + mset (bucket st' k)"
      by (simp only: bucket_consumed simp_thms if_False)
    moreover from False have "bindingsFor k bs = bindingsFor k bs'"
      by (simp add: bs bindingsFor_Cons)
    ultimately show ?thesis
      by (simp only:)
  qed
qed

lemma traversal_bound_in_bucket:
  assumes "processNextRow clock tza st rows i prev = Returns (st', rows', bs)"
    and "b \<in> set bs"
  shows "snd (snd b) \<in> set (bucket st (fst (snd b)))"
proof -
  from assms(2) have "snd (snd b) \<in> set (bindingsFor (fst (snd b)) bs)"
    by (auto simp: bindingsFor_def)
  then have "snd (snd b) \<in># mset (bindingsFor (fst (snd b)) bs) + mset (bucket st' (fst (snd b)))"
    by simp
  then have "snd (snd b) \<in># mset (bucket st (fst (snd b)))"
    by (simp only: traversal_buckets[OF assms(1)])
  then show ?thesis by simp
qed

subsection \<open>Well-formed indexes\<close>

text \<open>
  An index is well formed when no bucket holds a record twice and no record lies in two
  buckets; it is dated when all its records are. Both hold of the index that
  \<^verbatim>\<open>processCSV\<close> builds from dated records, and both are kept by consumption.
\<close>

definition wf_index :: "state \<Rightarrow> bool" where
  "wf_index st =
     ((\<forall>k. distinct (bucket st k))
      \<and> (\<forall>k k'. k \<noteq> k' \<longrightarrow> set (bucket st k) \<inter> set (bucket st k') = {}))"

definition dated_index :: "state \<Rightarrow> bool" where
  "dated_index st = (\<forall>k. list_all dated (bucket st k))"

lemma wf_index_consumed: "wf_index st \<Longrightarrow> wf_index (consumed st key c)"
  unfolding wf_index_def bucket_consumed
  by (auto dest: notin_set_remove1)

lemma dated_index_consumed: "dated_index st \<Longrightarrow> dated_index (consumed st key c)"
  unfolding dated_index_def bucket_consumed
  by (auto simp: list_all_iff dest: notin_set_remove1)

lemma consumed_gone:
  assumes "wf_index st" and "c \<in> set (bucket st key)"
  shows "c \<notin> set (bucket (consumed st key c) k)"
proof (cases "k = key")
  case True
  from assms(1) have "distinct (bucket st key)" by (simp add: wf_index_def)
  with True show ?thesis by (simp add: bucket_consumed)
next
  case False
  with assms(1) have "set (bucket st k) \<inter> set (bucket st key) = {}"
    by (simp add: wf_index_def)
  with assms(2) False show ?thesis by (auto simp: bucket_consumed)
qed

text \<open>Each record is bound at most once.\<close>

lemma traversal_distinct:
  "processNextRow clock tza st rows i prev = Returns (st', rows', bs) \<Longrightarrow> wf_index st \<Longrightarrow>
     distinct (map (\<lambda>b. snd (snd b)) bs)"
proof (induction st rows i prev arbitrary: bs rule: processNextRow_cases_induct)
  case (finished st rows i prev)
  then show ?case by (simp add: processNextRow_done)
next
  case (skipped st rows i prev)
  then show ?case by (simp add: processNextRow_blank)
next
  case (unmatched st rows i prev key)
  then show ?case by (simp add: processNextRow_no_candidate)
next
  case (filled st rows i prev key)
  let ?c = "chooseCandidate (trimmedValue (date_from (rows ! i))) (bucket st key)"
  from filled(1-3) filled(5) obtain r2 bs' where
    rec: "processNextRow clock tza (consumed st key ?c) (rows[i := r2]) (i + 1)
            (trimmedValue (chick_number (rows ! i))) = Returns (st', rows', bs')"
    and bs: "bs = (i, key, ?c) # bs'"
    by (rule processNextRow_fill_Returns)
  from filled(3) have mem: "?c \<in> set (bucket st key)"
    by (rule chooseCandidate_mem)
  from filled(6) have wf1: "wf_index (consumed st key ?c)"
    by (rule wf_index_consumed)
  from filled(4)[OF rec wf1] have d: "distinct (map (\<lambda>b. snd (snd b)) bs')" .
  have "?c \<notin> set (map (\<lambda>b. snd (snd b)) bs')"
  proof
    assume "?c \<in> set (map (\<lambda>b. snd (snd b)) bs')"
    then obtain b where b: "b \<in> set bs'" "snd (snd b) = ?c" by auto
    from traversal_bound_in_bucket[OF rec b(1)] b(2)
    have "?c \<in> set (bucket (consumed st key ?c) (fst (snd b)))" by simp
    with consumed_gone[OF filled(6) mem] show False by blast
  qed
  with d bs show ?case by simp
qed

text \<open>A traversal over a dated index returns.\<close>

lemma traversal_returns:
  "dated_index st \<Longrightarrow> \<exists>res. processNextRow clock tza st rows i prev = Returns res"
proof (induction st rows i prev rule: processNextRow_cases_induct)
  case (finished st rows i prev)
  then show ?case by (simp add: processNextRow_done)
next
  case (skipped st rows i prev)
  then show ?case by (simp add: processNextRow_blank)
next
  case (unmatched st rows i prev key)
  then show ?case by (simp add: processNextRow_no_candidate)
next
  case (filled st rows i prev key)
  let ?c = "chooseCandidate (trimmedValue (date_from (rows ! i))) (bucket st key)"
  from filled(3) have "?c \<in> set (bucket st key)"
    by (rule chooseCandidate_mem)
  with filled(5) have "dated ?c"
    by (auto simp: dated_index_def list_all_iff)
  from fillFields_dated[OF this] obtain r2 where
    fill: "fillFields (clock i) tza (bordered prev (rows ! i)) ?c = Returns r2" by blast
  from filled(5) have "dated_index (consumed st key ?c)"
    by (rule dated_index_consumed)
  from filled(4)[OF this] obtain st' rows' bs' where
    "processNextRow clock tza (consumed st key ?c) (rows[i := r2]) (i + 1)
       (trimmedValue (chick_number (rows ! i))) = Returns (st', rows', bs')"
    by (metis prod_cases3)
  with fill show ?case
    by (simp add: processNextRow_candidates[OF filled(1-3)] bound_def)
qed

subsection \<open>The index built from a file\<close>

lemma allocate_oids: "map oid (allocate data) = [0..<length data]"
proof -
  have "map oid (allocate data) = map fst (zip [0..<length data] data)"
    by (simp add: allocate_def case_prod_unfold comp_def)
  then show ?thesis by simp
qed

lemma allocate_distinct: "distinct (allocate data)"
proof -
  have "distinct (map oid (allocate data))"
    by (simp add: allocate_oids)
  then show ?thesis
    by (rule distinct_map[THEN iffD1, THEN conjunct1])
qed

lemma processCSV_initial:
  assumes "list_all (\<lambda>r. recordKey r \<noteq> None) records" and "distinct records"
    and "list_all dated records"
  shows "\<exists>st0. processCSV initialState records = Returns st0 \<and> totalMatches st0 = 0
           \<and> (\<forall>k. bucket st0 k = filter (\<lambda>r. recordKey r = Some k) records)
           \<and> wf_index st0 \<and> dated_index st0"
proof -
  from processCSV_buckets[OF assms(1), of initialState] obtain st0 where
    r: "processCSV initialState records = Returns st0"
    and t: "totalMatches st0 = totalMatches initialState"
    and b: "\<And>k. bucket st0 k = bucket initialState k @ filter (\<lambda>r. recordKey r = Some k) records"
    by blast
  have e: "bucket initialState k = []" for k
    by (simp add: bucket_def initialState_def)
  from b e have b': "\<And>k. bucket st0 k = filter (\<lambda>r. recordKey r = Some k) records"
    by simp
  from assms(2) have "wf_index st0"
    unfolding wf_index_def b' by auto
  moreover from assms(3) have "dated_index st0"
    unfolding dated_index_def b' by (auto simp: list_all_iff)
  moreover from t have "totalMatches st0 = 0"
    by (simp add: initialState_def)
  ultimately show ?thesis
    using r b' by blast
qed

section \<open>Properties of the resolver of browser-autofiller.js\<close>

lemma autofiller_done:
  "length rows \<le> i \<Longrightarrow> processNextRow_autofiller st rows i = (st, rows, [])"
  by (subst processNextRow_autofiller.simps) simp

lemma autofiller_blank:
  "i < length rows \<Longrightarrow> blank (rows ! i) \<Longrightarrow>
     processNextRow_autofiller st rows i = processNextRow_autofiller st rows (i + 1)"
  by (subst processNextRow_autofiller.simps) (simp add: blank_def Let_def)

lemma autofiller_no_candidate:
  "i < length rows \<Longrightarrow> rowKey (rows ! i) = Some key \<Longrightarrow> bucket st key = [] \<Longrightarrow>
     processNextRow_autofiller st rows i = processNextRow_autofiller st rows (i + 1)"
  by (subst processNextRow_autofiller.simps)
    (auto simp: rowKey_def blank_def Let_def split: if_splits)

lemma autofiller_candidates:
  assumes "i < length rows" and "rowKey (rows ! i) = Some key" and "bucket st key \<noteq> []"
  shows "processNextRow_autofiller st rows i =
     (case processNextRow_autofiller (st\<lparr>totalMatches := totalMatches st + 1\<rparr>)
             (rows[i := fillFields_autofiller (rows ! i)
                (chooseCandidate (trimmedValue (date_from (rows ! i))) (bucket st key))]) (i + 1) of
        (st', rows', bs) \<Rightarrow>
          (st', rows',
           (i, key, chooseCandidate (trimmedValue (date_from (rows ! i))) (bucket st key)) # bs))"
proof -
  from assms(2) have nb: "\<not> blank (rows ! i)"
    and key: "the (trimmedValue (chick_number (rows ! i))) @ ''|''
                      @ the (trimmedValue (date_to (rows ! i))) = key"
    by (auto simp: rowKey_def split: if_splits)
  show ?thesis
  proof (cases "length (bucket st key) = 1")
    case True
    then obtain c where c: "bucket st key = [c]"
      by (cases "bucket st key") auto
    with nb key assms(1) show ?thesis
      by (subst processNextRow_autofiller.simps)
        (simp add: blank_def Let_def chooseCandidate_single cong: prod.case_cong)
  next
    case False
    with assms(3) have "1 < length (bucket st key)"
      by (cases "bucket st key") auto
    with False nb key assms(1) show ?thesis
      by (subst processNextRow_autofiller.simps)
        (simp add: blank_def Let_def cong: prod.case_cong)
  qed
qed

lemma autofiller_cases_induct [case_names finished skipped unmatched filled]:
  assumes "\<And>st rows i. length rows \<le> i \<Longrightarrow> P st rows i"
    and "\<And>st rows i. i < length rows \<Longrightarrow> blank (rows ! i) \<Longrightarrow> P st rows (i + 1) \<Longrightarrow> P st rows i"
    and "\<And>st rows i key. i < length rows \<Longrightarrow> rowKey (rows ! i) = Some key \<Longrightarrow>
           bucket st key = [] \<Longrightarrow> P st rows (i + 1) \<Longrightarrow> P st rows i"
    and "\<And>st rows i key. i < length rows \<Longrightarrow> rowKey (rows ! i) = Some key \<Longrightarrow>
           bucket st key \<noteq> [] \<Longrightarrow>
           P (st\<lparr>totalMatches := totalMatches st + 1\<rparr>)
             (rows[i := fillFields_autofiller (rows ! i)
                (chooseCandidate (trimmedValue (date_from (rows ! i))) (bucket st key))]) (i + 1) \<Longrightarrow>
           P st rows i"
  shows "P st rows i"
proof (induction "length rows - i" arbitrary: st rows i)
  case 0
  then show ?case using assms(1) by simp
next
  case (Suc n)
  then have i: "i < length rows" by simp
  have ih: "P st' rows' (i + 1)" if "length rows' = length rows" for st' rows'
    using Suc.hyps(1)[of rows' "i + 1" st'] Suc.hyps(2) that by simp
  show ?case
  proof (cases "rowKey (rows ! i)")
    case None
    then have "blank (rows ! i)" by (simp add: blank_rowKey)
    with i ih show ?thesis by (rule_tac assms(2)) simp_all
  next
    case (Some key)
    show ?thesis
    proof (cases "bucket st key = []")
      case True
      with i Some ih show ?thesis by (rule_tac key=key in assms(3)) simp_all
    next
      case False
      with i Some ih show ?thesis by (rule_tac key=key in assms(4)) simp_all
    qed
  qed
qed

lemma autofiller_count:
  "processNextRow_autofiller st rows i = (st', rows', bs) \<Longrightarrow>
     totalMatches st' = totalMatches st + length bs \<and> length bs \<le> length rows - i
     \<and> length rows' = length rows"
proof (induction st rows i arbitrary: bs rule: autofiller_cases_induct)
  case (finished st rows i)
  then show ?case by (simp add: autofiller_done)
next
  case (skipped st rows i)
  then have "totalMatches st' = totalMatches st + length bs \<and> length bs \<le> length rows - (i + 1)
     \<and> length rows' = length rows"
    by (simp add: autofiller_blank)
  then show ?case by auto
next
  case (unmatched st rows i key)
  then have "totalMatches st' = totalMatches st + length bs \<and> length bs \<le> length rows - (i + 1)
     \<and> length rows' = length rows"
    by (simp add: autofiller_no_candidate)
  then show ?case by auto
next
  case (filled st rows i key)
  let ?c = "chooseCandidate (trimmedValue (date_from (rows ! i))) (bucket st key)"
  let ?st1 = "st\<lparr>totalMatches := totalMatches st + 1\<rparr>"
  let ?rows1 = "rows[i := fillFields_autofiller (rows ! i) ?c]"
  from filled(5) obtain bs' where
    rec: "processNextRow_autofiller ?st1 ?rows1 (i + 1) = (st', rows', bs')"
    and bs: "bs = (i, key, ?c) # bs'"
    unfolding autofiller_candidates[OF filled(1-3)] by (auto split: prod.splits)
  from filled(4)[OF rec] have
    "totalMatches st' = totalMatches st + 1 + length bs' \<and> length bs' \<le> length rows - (i + 1)
     \<and> length rows' = length rows"
    by simp
  with bs filled(1) show ?case by auto
qed

lemma autofiller_prefix:
  "processNextRow_autofiller st rows i = (st', rows', bs) \<Longrightarrow> j < i \<Longrightarrow> rows' ! j = rows ! j"
proof (induction st rows i arbitrary: bs rule: autofiller_cases_induct)
  case (finished st rows i)
  then show ?case by (simp add: autofiller_done)
next
  case (skipped st rows i)
  then show ?case by (simp add: autofiller_blank)
next
  case (unmatched st rows i key)
  then show ?case by (simp add: autofiller_no_candidate)
next
  case (filled st rows i key)
  let ?c = "chooseCandidate (trimmedValue (date_from (rows ! i))) (bucket st key)"
  let ?st1 = "st\<lparr>totalMatches := totalMatches st + 1\<rparr>"
  let ?rows1 = "rows[i := fillFields_autofiller (rows ! i) ?c]"
  from filled(5) obtain bs' where
    rec: "processNextRow_autofiller ?st1 ?rows1 (i + 1) = (st', rows', bs')"
    unfolding autofiller_candidates[OF filled(1-3)] by (auto split: prod.splits)
  from filled(4)[OF rec] filled(6) have "rows' ! j = ?rows1 ! j" by simp
  with filled(6) show ?case by simp
qed

lemma autofiller_blank_row:
  "processNextRow_autofiller st rows i = (st', rows', bs) \<Longrightarrow>
     j < length rows \<Longrightarrow> blank (rows ! j) \<Longrightarrow> rows' ! j = rows ! j \<and> j \<notin> fst ` set bs"
proof (induction st rows i arbitrary: bs rule: autofiller_cases_induct)
  case (finished st rows i)
  then show ?case by (simp add: autofiller_done)
next
  case (skipped st rows i)
  then show ?case by (simp add: autofiller_blank)
next
  case (unmatched st rows i key)
  then show ?case by (simp add: autofiller_no_candidate)
next
  case (filled st rows i key)
  let ?c = "chooseCandidate (trimmedValue (date_from (rows ! i))) (bucket st key)"
  let ?st1 = "st\<lparr>totalMatches := totalMatches st + 1\<rparr>"
  let ?rows1 = "rows[i := fillFields_autofiller (rows ! i) ?c]"
  from filled(5) obtain bs' where
    rec: "processNextRow_autofiller ?st1 ?rows1 (i + 1) = (st', rows', bs')"
    and bs: "bs = (i, key, ?c) # bs'"
    unfolding autofiller_candidates[OF filled(1-3)] by (auto split: prod.splits)
  from filled(2,7) have ji: "j \<noteq> i" by (auto simp: blank_rowKey)
  with filled(4)[OF rec] filled(6,7) bs show ?case by simp
qed

section \<open>The CSV Data Filler scripts\<close>

text \<open>
  The two "CSV Data Filler" scripts key the records by identifier alone, in an object in
  which a later record replaces an earlier one with the same identifier, and read the
  identifier of a row from the text of its seventh cell. A record with no \<^verbatim>\<open>CHICK\<close>
  property is filed under the property name \<^verbatim>\<open>undefined\<close>. The lookup is taken at cell
  texts that do not name a property of \<^verbatim>\<open>Object.prototype\<close>.
\<close>

record filler_row =
  chickCell :: "string option"
  startDateInput :: "string option"
  weeklyTotalInput :: "string option"
  hourRateInput :: "string option"
  highlight :: string

type_synonym lookup = "string \<Rightarrow> obj option"

definition chickOf :: "obj \<Rightarrow> string" where
  "chickOf r = (case map_of r ''CHICK'' of None \<Rightarrow> ''undefined'' | Some c \<Rightarrow> c)"

text \<open>\<^verbatim>\<open>data.forEach(row => { childrenByChick[row['CHICK']] = row; })\<close> on an empty object.\<close>

definition indexByChick :: "obj list \<Rightarrow> lookup" where
  "indexByChick data = foldl (\<lambda>m r. m(chickOf r \<mapsto> r)) Map.empty data"

text \<open>\<^verbatim>\<open>x || ''\<close> for a string or \<^verbatim>\<open>undefined\<close>.\<close>

definition orEmpty :: "string option \<Rightarrow> string" where
  "orEmpty v = (case v of None \<Rightarrow> [] | Some s \<Rightarrow> s)"

text \<open>
  \<^verbatim>\<open>fillRowData(rowIndex, childData, weeklyTotalValue)\<close>, the same in both scripts but
  for the scrolling: the row is found again by its position; each of the three inputs is
  written when the row has it; the row is highlighted as a success.
\<close>

definition fillRow :: "filler_row \<Rightarrow> obj \<Rightarrow> string option \<Rightarrow> filler_row" where
  "fillRow r childData weeklyTotalValue =
     r\<lparr>startDateInput := map_option (\<lambda>old. orEmpty (map_of childData ''Start date'')) (startDateInput r),
       weeklyTotalInput := map_option (\<lambda>old. orEmpty weeklyTotalValue) (weeklyTotalInput r),
       hourRateInput :=
         map_option (\<lambda>old. stripNonNumeric (orEmpty (map_of childData ''Hour rate''))) (hourRateInput r),
       highlight := ''csv-filler-success''\<rparr>"

definition fillRowData :: "filler_row list \<Rightarrow> nat \<Rightarrow> obj \<Rightarrow> string option \<Rightarrow> filler_row list" where
  "fillRowData rows rowIndex childData weeklyTotalValue =
     (if rowIndex < length rows
      then rows[rowIndex := fillRow (rows ! rowIndex) childData weeklyTotalValue]
      else rows)"

text \<open>\<^verbatim>\<open>highlightRow(rowIndex, 'pending')\<close>, as \<^verbatim>\<open>showWeeklyTotalSelector\<close> calls it.\<close>

definition highlightPending :: "filler_row list \<Rightarrow> nat \<Rightarrow> filler_row list" where
  "highlightPending rows rowIndex =
     (if rowIndex < length rows
      then rows[rowIndex := (rows ! rowIndex)\<lparr>highlight := ''csv-filler-pending''\<rparr>]
      else rows)"

text \<open>\<^verbatim>\<open>weeklyTotal && weeklyTotal.includes('/')\<close>.\<close>

definition ambiguous :: "string option \<Rightarrow> bool" where
  "ambiguous weeklyTotal =
     (case weeklyTotal of None \<Rightarrow> False | Some w \<Rightarrow> w \<noteq> [] \<and> js_includes w ''/'')"

text \<open>
  The operator answers the prompts in turn: the button of the n-th offered value, or
  "Skip This Row". A traversal either finishes, with the final count in the status line,
  or stands at a prompt with no answer left: the row, the offered values, and the count
  and the rows at that moment.
\<close>

datatype decision = Select nat | SkipRow

datatype progress =
  Finished nat "filler_row list"
| Prompt nat "string list" nat "filler_row list"

text \<open>
  \<^verbatim>\<open>processRowsSequentially(rows, currentIndex)\<close> of the first script, with the count and
  the lookup in the script's global state. The skip button calls it again for the next
  row and leaves the state alone.
\<close>

function processRowsSequentially ::
  "lookup \<Rightarrow> nat \<Rightarrow> filler_row list \<Rightarrow> nat \<Rightarrow> decision list \<Rightarrow> progress"
where
  "processRowsSequentially childrenByChick matches rows currentIndex answers =
     (if length rows \<le> currentIndex then Finished matches rows
      else
        (case chickCell (rows ! currentIndex) of
           None \<Rightarrow> processRowsSequentially childrenByChick matches rows (currentIndex + 1) answers
         | Some cellText \<Rightarrow>
             (case childrenByChick (js_trim cellText) of
                None \<Rightarrow> processRowsSequentially childrenByChick matches rows (currentIndex + 1) answers
              | Some childData \<Rightarrow>
                  (let weeklyTotal = map_of childData ''Weekly Total''
                   in if ambiguous weeklyTotal
                      then
                        (let vals = js_split (CHR ''/'') (the weeklyTotal);
                             pending = highlightPending rows currentIndex
                         in case answers of
                              [] \<Rightarrow> Prompt currentIndex vals matches pending
                            | Select n # rest \<Rightarrow>
                                (if n < length vals
                                 then processRowsSequentially childrenByChick (matches + 1)
                                        (fillRowData pending currentIndex childData (Some (vals ! n)))
                                        (currentIndex + 1) rest
                                 else Prompt currentIndex vals matches pending)
                            | SkipRow # rest \<Rightarrow>
                                processRowsSequentially childrenByChick matches pending
                                  (currentIndex + 1) rest)
                      else processRowsSequentially childrenByChick (matches + 1)
                             (fillRowData rows currentIndex childData weeklyTotal)
                             (currentIndex + 1) answers))))"
  by pat_completeness auto
termination
  by (relation "measure (\<lambda>(childrenByChick, matches, rows, currentIndex, answers).
                  length rows - currentIndex)")
    (auto simp: fillRowData_def highlightPending_def)

declare processRowsSequentially.simps [simp del]

text \<open>
  \<^verbatim>\<open>processRowsSequentially(rows, currentIndex, childrenByChick, matchCount)\<close> of the
  second script, where the lookup and the count are arguments. Its skip button calls
  \<^verbatim>\<open>processRowsSequentially(rows, rowIndex + 1, {}, 0)\<close>.
\<close>

function processRowsSequentially_passing ::
  "filler_row list \<Rightarrow> nat \<Rightarrow> lookup \<Rightarrow> nat \<Rightarrow> decision list \<Rightarrow> progress"
where
  "processRowsSequentially_passing rows currentIndex childrenByChick matchCount answers =
     (if length rows \<le> currentIndex then Finished matchCount rows
      else
        (case chickCell (rows ! currentIndex) of
           None \<Rightarrow>
             processRowsSequentially_passing rows (currentIndex + 1) childrenByChick matchCount answers
         | Some cellText \<Rightarrow>
             (case childrenByChick (js_trim cellText) of
                None \<Rightarrow>
                  processRowsSequentially_passing rows (currentIndex + 1) childrenByChick matchCount
                    answers
              | Some childData \<Rightarrow>
                  (let weeklyTotal = map_of childData ''Weekly Total''
                   in if ambiguous weeklyTotal
                      then
                        (let vals = js_split (CHR ''/'') (the weeklyTotal);
                             pending = highlightPending rows currentIndex
                         in case answers of
                              [] \<Rightarrow> Prompt currentIndex vals matchCount pending
                            | Select n # rest \<Rightarrow>
                                (if n < length vals
                                 then processRowsSequentially_passing
                                        (fillRowData pending currentIndex childData (Some (vals ! n)))
                                        (currentIndex + 1) childrenByChick (matchCount + 1) rest
                                 else Prompt currentIndex vals matchCount pending)
                            | SkipRow # rest \<Rightarrow>
                                processRowsSequentially_passing pending (currentIndex + 1)
                                  Map.empty 0 rest)
                      else processRowsSequentially_passing
                             (fillRowData rows currentIndex childData weeklyTotal)
                             (currentIndex + 1) childrenByChick (matchCount + 1) answers))))"
  by pat_completeness auto
termination
  by (relation "measure (\<lambda>(rows, currentIndex, childrenByChick, matchCount, answers).
                  length rows - currentIndex)")
    (auto simp: fillRowData_def highlightPending_def)

declare processRowsSequentially_passing.simps [simp del]

subsection \<open>Properties of the CSV Data Filler\<close>

definition rowsOf :: "progress \<Rightarrow> filler_row list" where
  "rowsOf p = (case p of Finished n rows \<Rightarrow> rows | Prompt i vals n rows \<Rightarrow> rows)"

definition countOf :: "progress \<Rightarrow> nat" where
  "countOf p = (case p of Finished n rows \<Rightarrow> n | Prompt i vals n rows \<Rightarrow> n)"

lemma chickCell_fillRow: "chickCell (fillRow r childData w) = chickCell r"
  by (simp add: fillRow_def)

lemma chickCell_fillRowData: "map chickCell (fillRowData rows i childData w) = map chickCell rows"
  by (simp add: fillRowData_def map_update_same chickCell_fillRow)

lemma chickCell_highlightPending: "map chickCell (highlightPending rows i) = map chickCell rows"
  by (simp add: highlightPending_def map_update_same)

lemma filler_chickCells:
  "map chickCell (rowsOf (processRowsSequentially childrenByChick matches rows i answers))
     = map chickCell rows"
proof (induction childrenByChick matches rows i answers rule: processRowsSequentially.induct)
  case (1 childrenByChick matches rows currentIndex answers)
  show ?case
    apply (subst processRowsSequentially.simps)
    using 1
    by (auto simp: Let_def rowsOf_def chickCell_fillRowData chickCell_highlightPending
        split: option.splits list.splits decision.splits)
qed

section \<open>Worked example: a table\<close>

text \<open>
  Five rows for the three records of the example: a row whose period start names the
  second record, a row with a blank identifier, two more rows of the same key, and a row
  for the third record.
\<close>

definition tableRow :: "string \<Rightarrow> string \<Rightarrow> string \<Rightarrow> row" where
  "tableRow chick until start =
     \<lparr>chick_number = Some chick, date_to = Some until, date_from = Some start,
      weekly_total = Some [], hour_rate = Some [], lastTd = Some [],
      borderTop = [], fontWeight = [], borderLeft = [], backgroundColor = []\<rparr>"

definition exampleRows :: "row list" where
  "exampleRows =
     [tableRow ''A12'' ''31/12/2025'' ''01/10/2025'',
      tableRow '' '' ''31/12/2025'' [],
      tableRow ''A12 '' ''31/12/2025'' [],
      tableRow ''A12'' ''31/12/2025'' [],
      tableRow ''B7'' ''30/06/2025'' []]"

lemma exampleRows_blank: "1 < length exampleRows \<and> blank (exampleRows ! 1)"
  by (simp add: exampleRows_def tableRow_def blank_def trimmedValue_def falsy_def js_trim_def
      isWhiteSpace_def)

section \<open>Skipped rows\<close>

text \<open>
  Claim C8. A destination row whose identifier input or period-end input is missing or
  blank after trimming is skipped by both autofillers: the traversal from that row is the
  traversal from the next row, with the same state, the same rows and (in the holiday-aware
  script) the same previous identifier. In every traversal that returns, from any start,
  such a row is not bound, is the same row afterwards, and the counter grows by the
  number of bindings only.
\<close>

theorem blank_row_is_skipped:
  assumes "i < length rows" and "blank (rows ! i)"
  shows "processNextRow clock tza st rows i prev = processNextRow clock tza st rows (i + 1) prev
     \<and> processNextRow_autofiller st rows i = processNextRow_autofiller st rows (i + 1)
     \<and> (\<forall>i0 prev0 st' rows' bs.
           processNextRow clock tza st rows i0 prev0 = Returns (st', rows', bs) \<longrightarrow>
             rows' ! i = rows ! i \<and> i \<notin> fst ` set bs
             \<and> totalMatches st' = totalMatches st + length bs)
     \<and> (\<forall>i0 st' rows' bs.
           processNextRow_autofiller st rows i0 = (st', rows', bs) \<longrightarrow>
             rows' ! i = rows ! i \<and> i \<notin> fst ` set bs
             \<and> totalMatches st' = totalMatches st + length bs)"
proof (intro conjI allI impI)
  show "processNextRow clock tza st rows i prev = processNextRow clock tza st rows (i + 1) prev"
    using assms by (rule processNextRow_blank)
  show "processNextRow_autofiller st rows i = processNextRow_autofiller st rows (i + 1)"
    using assms by (rule autofiller_blank)
next
  fix i0 prev0 st' rows' bs
  assume r: "processNextRow clock tza st rows i0 prev0 = Returns (st', rows', bs)"
  show "rows' ! i = rows ! i"
    using r assms by (rule traversal_blank)
  show "i \<notin> fst ` set bs"
    using r assms(2) by (rule traversal_blank_unbound)
  show "totalMatches st' = totalMatches st + length bs"
    using traversal_count[OF r] by simp
next
  fix i0 st' rows' bs
  assume r: "processNextRow_autofiller st rows i0 = (st', rows', bs)"
  from autofiller_blank_row[OF r assms] show "rows' ! i = rows ! i" and "i \<notin> fst ` set bs"
    by simp_all
  show "totalMatches st' = totalMatches st + length bs"
    using autofiller_count[OF r] by simp
qed

theorem blank_row_is_skipped_witness:
  "1 < length exampleRows \<and> blank (exampleRows ! 1)
   \<and> processNextRow (\<lambda>i. 0) 0 initialState exampleRows 1 None
       = processNextRow (\<lambda>i. 0) 0 initialState exampleRows (1 + 1) None
   \<and> processNextRow_autofiller initialState exampleRows 1
       = processNextRow_autofiller initialState exampleRows (1 + 1)"
proof -
  have h1: "1 < length exampleRows" and h2: "blank (exampleRows ! 1)"
    using exampleRows_blank by simp_all
  note t = blank_row_is_skipped[OF h1 h2, of "\<lambda>i. 0" 0 initialState None]
  from t have a: "processNextRow (\<lambda>i. 0) 0 initialState exampleRows 1 None
       = processNextRow (\<lambda>i. 0) 0 initialState exampleRows (1 + 1) None"
    by (rule conjunct1)
  from t have b: "processNextRow_autofiller initialState exampleRows 1
       = processNextRow_autofiller initialState exampleRows (1 + 1)"
    by (rule conjunct2[THEN conjunct1])
  from h1 h2 a b show ?thesis
    by (intro conjI)
qed

section \<open>The fields of the key\<close>

text \<open>
  Claim C10. Of the five inputs of a row, a fill writes the period start, the weekly total
  and the hourly rate only: the identifier input and the period-end input of the row
  filled are the same afterwards, and over a whole traversal of the holiday-aware
  autofiller every row keeps its identifier, its period end and hence its key. In the CSV
  Data Filler, where the key is the text of the identifier cell, \<^verbatim>\<open>fillRowData\<close> and a
  whole traversal leave that cell of every row as it was.
\<close>

theorem key_fields_are_not_written:
  "(\<forall>r2. fillFields now tza r c = Returns r2 \<longrightarrow>
        chick_number r2 = chick_number r \<and> date_to r2 = date_to r \<and> rowKey r2 = rowKey r)
   \<and> (\<forall>st' rows' bs. processNextRow clock tza st rows i prev = Returns (st', rows', bs) \<longrightarrow>
        map chick_number rows' = map chick_number rows \<and> map date_to rows' = map date_to rows
        \<and> map rowKey rows' = map rowKey rows)
   \<and> chickCell (fillRow fr childData w) = chickCell fr
   \<and> map chickCell (fillRowData frs rowIndex childData w) = map chickCell frs
   \<and> map chickCell (rowsOf (processRowsSequentially childrenByChick matches frs j answers))
       = map chickCell frs"
proof (intro conjI allI impI)
  fix r2
  assume f: "fillFields now tza r c = Returns r2"
  from fillFields_Returns(1,2)[OF f] show c: "chick_number r2 = chick_number r"
    and d: "date_to r2 = date_to r"
    by simp_all
  from c d show "rowKey r2 = rowKey r"
    by (rule rowKey_cong)
next
  fix st' rows' bs
  assume t: "processNextRow clock tza st rows i prev = Returns (st', rows', bs)"
  from traversal_keys[OF t] show "map chick_number rows' = map chick_number rows"
    and "map date_to rows' = map date_to rows"
    by simp_all
  from traversal_length[OF t] have l: "length rows' = length rows" .
  show "map rowKey rows' = map rowKey rows"
  proof (rule nth_equalityI)
    show "length (map rowKey rows') = length (map rowKey rows)"
      using l by simp
  next
    fix j
    assume "j < length (map rowKey rows')"
    with l have j: "j < length rows" by simp
    from traversal_rowKey[OF t j] j l show "map rowKey rows' ! j = map rowKey rows ! j"
      by simp
  qed
next
  show "chickCell (fillRow fr childData w) = chickCell fr"
    by (rule chickCell_fillRow)
  show "map chickCell (fillRowData frs rowIndex childData w) = map chickCell frs"
    by (rule chickCell_fillRowData)
  show "map chickCell (rowsOf (processRowsSequentially childrenByChick matches frs j answers))
       = map chickCell frs"
    by (rule filler_chickCells)
qed

lemma exampleData_third:
  "exampleData ! 2 =
     \<lparr>oid = 2, props = [(''CHICK'', ''B7''), (''Claim Until'', ''30/06/2025''),
        (''Funding Start'', ''01/07/2025''), (''Weekly Total'', ''15''),
        (''Hour rate'', ''1,204.25 ''), (''Note'', ''Base; moved house'')]\<rparr>"
  by (simp add: exampleData_def exampleObjects_def allocate_def)

lemma exampleData_third_dated: "dated (exampleData ! 2)"
  by (simp add: exampleData_third dated_def getProp_def date_eval)

lemma exampleRows_fifth: "exampleRows ! 4 = tableRow ''B7'' ''30/06/2025'' []"
  by (simp add: exampleRows_def)

theorem key_fields_are_not_written_witness:
  "\<exists>r2. fillFields 0 0 (exampleRows ! 4) (exampleData ! 2) = Returns r2
      \<and> chick_number r2 = Some ''B7'' \<and> date_to r2 = Some ''30/06/2025''"
proof -
  from fillFields_dated[OF exampleData_third_dated] obtain r2 where
    f: "fillFields 0 0 (exampleRows ! 4) (exampleData ! 2) = Returns r2" by blast
  from key_fields_are_not_written[of 0 0 "exampleRows ! 4" "exampleData ! 2"] f
  have "chick_number r2 = chick_number (exampleRows ! 4) \<and> date_to r2 = date_to (exampleRows ! 4)"
    by blast
  then have "chick_number r2 = Some ''B7'' \<and> date_to r2 = Some ''30/06/2025''"
    by (simp add: exampleRows_fifth tableRow_def)
  with f show ?thesis by blast
qed

section \<open>The hourly rate\<close>

lemma count_list_filter:
  "count_list (filter P xs) y = (if P y then count_list xs y else 0)"
  by (induction xs) auto

lemma setInput_stripped:
  "setInput el (map_option stripNonNumeric v) = map_option (\<lambda>old. stripNonNumeric (orEmpty v)) el"
  by (cases el; cases v) (simp_all add: setInput_def orEmpty_def stripNonNumeric_def)

text \<open>
  Claim C6, as amended. The value written to the hourly-rate input, by \<^verbatim>\<open>fillFields\<close> of
  the holiday-aware autofiller and by \<^verbatim>\<open>fillRowData\<close> of the CSV Data Filler, is the
  record's hourly rate (the empty string when the record has none) with every character
  deleted that is neither a decimal digit nor a full stop. Every full stop of the rate is
  kept, so the value written has as many as the rate has.
\<close>

theorem hour_rate_is_stripped:
  "(\<forall>r2. fillFields now tza r c = Returns r2 \<longrightarrow>
        hour_rate r2 = map_option (\<lambda>old. stripNonNumeric (orEmpty (getProp c ''Hour rate'')))
                         (hour_rate r))
   \<and> hourRateInput (fillRow fr childData w)
       = map_option (\<lambda>old. stripNonNumeric (orEmpty (map_of childData ''Hour rate'')))
           (hourRateInput fr)
   \<and> stripNonNumeric s = filter (\<lambda>ch. ch \<in> set ''0123456789.'') s
   \<and> set (stripNonNumeric s) \<subseteq> set ''0123456789.''
   \<and> count_list (stripNonNumeric s) (CHR ''.'') = count_list s (CHR ''.'')"
proof (intro conjI allI impI)
  fix r2
  assume "fillFields now tza r c = Returns r2"
  from fillFields_Returns(5)[OF this]
  show "hour_rate r2 = map_option (\<lambda>old. stripNonNumeric (orEmpty (getProp c ''Hour rate'')))
                         (hour_rate r)"
    by (simp only: setInput_stripped)
next
  show "hourRateInput (fillRow fr childData w)
       = map_option (\<lambda>old. stripNonNumeric (orEmpty (map_of childData ''Hour rate'')))
           (hourRateInput fr)"
    by (simp add: fillRow_def)
  show e: "stripNonNumeric s = filter (\<lambda>ch. ch \<in> set ''0123456789.'') s"
    unfolding stripNonNumeric_def isDigit_def by (rule filter_cong) auto
  show "set (stripNonNumeric s) \<subseteq> set ''0123456789.''"
    unfolding e by auto
  show "count_list (stripNonNumeric s) (CHR ''.'') = count_list s (CHR ''.'')"
    unfolding stripNonNumeric_def by (simp add: count_list_filter)
qed

theorem hour_rate_is_stripped_witness:
  "\<exists>r2. fillFields 0 0 (exampleRows ! 4) (exampleData ! 2) = Returns r2
      \<and> hour_rate r2 = Some ''1204.25''"
proof -
  from fillFields_dated[OF exampleData_third_dated] obtain r2 where
    f: "fillFields 0 0 (exampleRows ! 4) (exampleData ! 2) = Returns r2" by blast
  from hour_rate_is_stripped[of 0 0 "exampleRows ! 4" "exampleData ! 2"] f
  have "hour_rate r2 = map_option (\<lambda>old. stripNonNumeric (orEmpty (getProp (exampleData ! 2) ''Hour rate'')))
                         (hour_rate (exampleRows ! 4))"
    by blast
  then have "hour_rate r2 = Some ''1204.25''"
    by (simp add: exampleRows_fifth tableRow_def exampleData_third getProp_def orEmpty_def
        stripNonNumeric_def isDigit_def)
  with f show ?thesis by blast
qed

text \<open>
  A rate with two full stops is written with both: the value written can hold more than
  one.
\<close>

definition dottedRecord :: source_record where
  "dottedRecord =
     \<lparr>oid = 0, props = [(''CHICK'', ''B7''), (''Claim Until'', ''30/06/2025''),
        (''Funding Start'', ''01/07/2025''), (''Hour rate'', ''EUR 1.234.56'')]\<rparr>"

lemma dottedRecord_dated: "dated dottedRecord"
  by (simp add: dottedRecord_def dated_def getProp_def date_eval)

theorem hour_rate_keeps_every_full_stop:
  "hourRateInput
     (fillRow \<lparr>chickCell = None, startDateInput = None, weeklyTotalInput = None,
               hourRateInput = Some [], highlight = []\<rparr>
        (props dottedRecord) None) = Some ''1.234.56''
   \<and> (\<exists>r2. fillFields 0 0 (tableRow ''B7'' ''30/06/2025'' []) dottedRecord = Returns r2
          \<and> hour_rate r2 = Some ''1.234.56'')
   \<and> \<not> count_list ''1.234.56'' (CHR ''.'') \<le> 1"
proof -
  from fillFields_dated[OF dottedRecord_dated] obtain r2 where
    f: "fillFields 0 0 (tableRow ''B7'' ''30/06/2025'' []) dottedRecord = Returns r2" by blast
  from fillFields_Returns(5)[OF f] have "hour_rate r2 = Some ''1.234.56''"
    by (simp add: tableRow_def setInput_def dottedRecord_def getProp_def stripNonNumeric_def
        isDigit_def)
  with f have "\<exists>r2. fillFields 0 0 (tableRow ''B7'' ''30/06/2025'' []) dottedRecord = Returns r2
          \<and> hour_rate r2 = Some ''1.234.56''"
    by blast
  moreover have "hourRateInput
     (fillRow \<lparr>chickCell = None, startDateInput = None, weeklyTotalInput = None,
               hourRateInput = Some [], highlight = []\<rparr>
        (props dottedRecord) None) = Some ''1.234.56''"
    by (simp add: fillRow_def orEmpty_def stripNonNumeric_def isDigit_def dottedRecord_def)
  moreover have "\<not> count_list ''1.234.56'' (CHR ''.'') \<le> 1"
    by simp
  ultimately show ?thesis
    by (intro conjI)
qed

section \<open>Counting matches\<close>

text \<open>
  A source is well formed when every record has an identifier, a period end and a period
  start that parses: these are the records from which the index is built and every fill
  returns.
\<close>

definition wellFormedSource :: "obj list \<Rightarrow> bool" where
  "wellFormedSource data = list_all (\<lambda>r. recordKey r \<noteq> None \<and> dated r) (allocate data)"

lemma wellFormedSource_index:
  assumes "wellFormedSource data"
  shows "\<exists>st0. processCSV initialState (allocate data) = Returns st0 \<and> totalMatches st0 = 0
           \<and> (\<forall>k. bucket st0 k = filter (\<lambda>r. recordKey r = Some k) (allocate data))
           \<and> wf_index st0 \<and> dated_index st0"
proof -
  from assms have "list_all (\<lambda>r. recordKey r \<noteq> None) (allocate data)"
    and "list_all dated (allocate data)"
    by (simp_all add: wellFormedSource_def list_all_iff)
  then show ?thesis
    using allocate_distinct by (intro processCSV_initial)
qed

lemma distinct_subset_length:
  assumes "distinct xs" and "set xs \<subseteq> set ys"
  shows "length xs \<le> length ys"
proof -
  from assms(1) have "length xs = card (set xs)"
    by (simp add: distinct_card)
  also from assms(2) have "\<dots> \<le> card (set ys)"
    by (intro card_mono) simp_all
  also have "\<dots> \<le> length ys"
    by (rule card_length)
  finally show ?thesis .
qed

lemma traversal_bucket_sizes:
  assumes "processNextRow clock tza st rows i prev = Returns (st', rows', bs)"
  shows "length (bucket st k) = length (bindingsFor k bs) + length (bucket st' k)"
proof -
  from traversal_buckets[OF assms, of k]
  have "size (mset (bucket st k)) = size (mset (bindingsFor k bs) + mset (bucket st' k))"
    by (rule arg_cong)
  then show ?thesis by simp
qed

text \<open>
  Exhaustion, from any state: if the bucket of a key is empty, it is empty at the end, and
  no row of that key is bound or has its inputs changed.
\<close>

lemma traversal_exhausted:
  assumes "processNextRow clock tza st rows i prev = Returns (st', rows', bs)"
    and "bucket st k = []"
  shows "bucket st' k = []"
    and "j < length rows \<Longrightarrow> rowKey (rows ! j) = Some k \<Longrightarrow>
           j \<notin> fst ` set bs \<and> inputs (rows' ! j) = inputs (rows ! j)"
proof -
  from traversal_bucket_sizes[OF assms(1), of k] assms(2)
  have e: "bucket st' k = []" and n: "bindingsFor k bs = []"
    by simp_all
  show "bucket st' k = []" by (rule e)
  assume j: "j < length rows" and k: "rowKey (rows ! j) = Some k"
  have u: "j \<notin> fst ` set bs"
  proof
    assume "j \<in> fst ` set bs"
    then obtain b where b: "b \<in> set bs" "fst b = j" by auto
    with traversal_bindings[OF assms(1)] k have "fst (snd b) = k"
      by (auto simp: list_all_iff)
    with b(1) have "snd (snd b) \<in> set (bindingsFor k bs)"
      by (auto simp: bindingsFor_def)
    with n show False by simp
  qed
  moreover from traversal_unbound[OF assms(1) j u] have "inputs (rows' ! j) = inputs (rows ! j)" .
  ultimately show "j \<notin> fst ` set bs \<and> inputs (rows' ! j) = inputs (rows ! j)" ..
qed

text \<open>
  Exhaustion, along one traversal: once the rows before \<open>j\<close> have bound as many records
  under a key as the bucket held, row \<open>j\<close> of that key is not bound.
\<close>

lemma traversal_exhausted_before:
  assumes "processNextRow clock tza st rows i prev = Returns (st', rows', bs)"
    and "j < length rows" and "rowKey (rows ! j) = Some k"
    and "length (bindingsFor k (filter (\<lambda>b. fst b < j) bs)) = length (bucket st k)"
  shows "j \<notin> fst ` set bs \<and> inputs (rows' ! j) = inputs (rows ! j)"
proof -
  let ?bk = "filter (\<lambda>b. fst (snd b) = k) bs"
  have u: "j \<notin> fst ` set bs"
  proof
    assume "j \<in> fst ` set bs"
    then obtain b where b: "b \<in> set bs" "fst b = j" by auto
    with traversal_bindings[OF assms(1)] assms(3) have "fst (snd b) = k"
      by (auto simp: list_all_iff)
    with b have "b \<in> set ?bk" and "\<not> fst b < j" by simp_all
    then have "length (filter (\<lambda>b. fst b < j) ?bk) < length ?bk"
      by (rule length_filter_less)
    moreover have "length (filter (\<lambda>b. fst b < j) ?bk)
                     = length (bindingsFor k (filter (\<lambda>b. fst b < j) bs))"
      by (simp add: bindingsFor_def conj_commute)
    moreover have "length ?bk = length (bindingsFor k bs)"
      by (simp add: bindingsFor_def)
    ultimately have "length (bucket st k) < length (bindingsFor k bs)"
      using assms(4) by simp
    with traversal_bucket_sizes[OF assms(1), of k] show False by simp
  qed
  moreover from traversal_unbound[OF assms(1,2) u]
  have "inputs (rows' ! j) = inputs (rows ! j)" .
  ultimately show ?thesis ..
qed

text \<open>
  Claim C1, as amended. In the holiday-aware autofiller, for every well-formed source and
  every sequence of destination rows, building the index and traversing the rows returns;
  the final counter is the number of bindings; it exceeds neither the number of rows nor
  the number of records; under every key no more rows are bound than the source has
  records of that key; every binding pairs a row with a record of the source filed under
  the row's key; no record is bound twice; and a row reached when the rows before it have
  already bound every record of its key, or processed from any state in which the bucket
  of its key is empty, is not bound and keeps its inputs, the bucket staying empty. In
  \<^verbatim>\<open>browser-autofiller.js\<close>, which never removes a record from its bucket, the counter
  grows by the number of bindings, which does not exceed the number of rows.
\<close>

theorem matches_are_bounded:
  assumes "wellFormedSource data"
  shows "\<exists>st0 st' rows' bs.
      processCSV initialState (allocate data) = Returns st0
    \<and> processNextRow clock tza st0 rows 0 None = Returns (st', rows', bs)
    \<and> totalMatches st' = length bs
    \<and> length bs \<le> length rows
    \<and> length bs \<le> length data
    \<and> (\<forall>k. length (bindingsFor k bs)
             \<le> length (filter (\<lambda>r. recordKey r = Some k) (allocate data)))
    \<and> list_all (\<lambda>b. fst b < length rows \<and> rowKey (rows ! fst b) = Some (fst (snd b))
                   \<and> snd (snd b) \<in> set (allocate data)
                   \<and> recordKey (snd (snd b)) = Some (fst (snd b))) bs
    \<and> distinct (map (\<lambda>b. snd (snd b)) bs)
    \<and> (\<forall>j k. j < length rows \<and> rowKey (rows ! j) = Some k
           \<and> length (bindingsFor k (filter (\<lambda>b. fst b < j) bs))
               = length (filter (\<lambda>r. recordKey r = Some k) (allocate data))
           \<longrightarrow> j \<notin> fst ` set bs \<and> inputs (rows' ! j) = inputs (rows ! j))
    \<and> (\<forall>st i prev st1 rows1 bs1 k.
           bucket st k = [] \<and> processNextRow clock tza st rows i prev = Returns (st1, rows1, bs1)
           \<longrightarrow> bucket st1 k = []
               \<and> (\<forall>j. j < length rows \<and> rowKey (rows ! j) = Some k
                     \<longrightarrow> j \<notin> fst ` set bs1 \<and> inputs (rows1 ! j) = inputs (rows ! j)))
    \<and> (\<forall>st st1 rows1 bs1. processNextRow_autofiller st rows 0 = (st1, rows1, bs1)
           \<longrightarrow> totalMatches st1 = totalMatches st + length bs1 \<and> length bs1 \<le> length rows)"
proof -
  from wellFormedSource_index[OF assms] obtain st0 where
    csv: "processCSV initialState (allocate data) = Returns st0"
    and zero: "totalMatches st0 = 0"
    and b0: "\<And>k. bucket st0 k = filter (\<lambda>r. recordKey r = Some k) (allocate data)"
    and wf: "wf_index st0" and dt: "dated_index st0"
    by blast
  from traversal_returns[OF dt, of clock tza rows 0 None] obtain st' rows' bs where
    t: "processNextRow clock tza st0 rows 0 None = Returns (st', rows', bs)"
    by (metis prod_cases3)
  from traversal_count[OF t] zero have
    count: "totalMatches st' = length bs" and rows: "length bs \<le> length rows"
    and pos: "list_all (\<lambda>b. fst b < length rows) bs"
    by (simp_all add: list_all_iff)
  have perkey: "length (bindingsFor k bs)
                  \<le> length (filter (\<lambda>r. recordKey r = Some k) (allocate data))" for k
    using traversal_bucket_sizes[OF t, of k] by (simp add: b0)
  have each: "fst b < length rows \<and> rowKey (rows ! fst b) = Some (fst (snd b))
                \<and> snd (snd b) \<in> set (allocate data)
                \<and> recordKey (snd (snd b)) = Some (fst (snd b))" if "b \<in> set bs" for b
  proof -
    from traversal_bound_in_bucket[OF t that]
    have "snd (snd b) \<in> set (allocate data) \<and> recordKey (snd (snd b)) = Some (fst (snd b))"
      by (simp add: b0)
    moreover from traversal_bindings[OF t] that
    have "rowKey (rows ! fst b) = Some (fst (snd b))"
      by (simp add: list_all_iff)
    moreover from pos that have "fst b < length rows"
      by (simp add: list_all_iff)
    ultimately show ?thesis by simp
  qed
  have dist: "distinct (map (\<lambda>b. snd (snd b)) bs)"
    using t wf by (rule traversal_distinct)
  have "set (map (\<lambda>b. snd (snd b)) bs) \<subseteq> set (allocate data)"
    using each by auto
  with dist have "length (map (\<lambda>b. snd (snd b)) bs) \<le> length (allocate data)"
    by (rule distinct_subset_length)
  then have total: "length bs \<le> length data"
    by (simp add: allocate_def)
  have before: "j \<notin> fst ` set bs \<and> inputs (rows' ! j) = inputs (rows ! j)"
    if "j < length rows \<and> rowKey (rows ! j) = Some k
           \<and> length (bindingsFor k (filter (\<lambda>b. fst b < j) bs))
               = length (filter (\<lambda>r. recordKey r = Some k) (allocate data))" for j k
    using traversal_exhausted_before[OF t, of j k] that by (simp add: b0)
  have empty: "bucket st1 k = []
               \<and> (\<forall>j. j < length rows \<and> rowKey (rows ! j) = Some k
                     \<longrightarrow> j \<notin> fst ` set bs1 \<and> inputs (rows1 ! j) = inputs (rows ! j))"
    if "bucket st k = [] \<and> processNextRow clock tza st rows i prev = Returns (st1, rows1, bs1)"
    for st i prev st1 rows1 bs1 k
    using traversal_exhausted[of clock tza st rows i prev st1 rows1 bs1 k] that by blast
  have auto1: "totalMatches st1 = totalMatches st + length bs1 \<and> length bs1 \<le> length rows"
    if "processNextRow_autofiller st rows 0 = (st1, rows1, bs1)" for st st1 rows1 bs1
    using autofiller_count[OF that] by simp
  from each have eachl: "list_all (\<lambda>b. fst b < length rows \<and> rowKey (rows ! fst b) = Some (fst (snd b))
                   \<and> snd (snd b) \<in> set (allocate data)
                   \<and> recordKey (snd (snd b)) = Some (fst (snd b))) bs"
    by (simp add: list_all_iff)
  show ?thesis
    apply (rule exI[of _ st0], rule exI[of _ st'], rule exI[of _ rows'], rule exI[of _ bs])
    apply (intro conjI allI impI)
    subgoal by (rule csv)
    subgoal by (rule t)
    subgoal by (rule count)
    subgoal by (rule rows)
    subgoal by (rule total)
    subgoal by (rule perkey)
    subgoal by (rule eachl)
    subgoal by (rule dist)
    subgoal for j k using before[of j k] by blast
    subgoal for j k using before[of j k] by blast
    subgoal for st i prev st1 rows1 bs1 k using empty[of st k i prev st1 rows1 bs1] by blast
    subgoal for st i prev st1 rows1 bs1 k j using empty[of st k i prev st1 rows1 bs1] by blast
    subgoal for st i prev st1 rows1 bs1 k j using empty[of st k i prev st1 rows1 bs1] by blast
    subgoal for st st1 rows1 bs1 using auto1[of st st1 rows1 bs1] by blast
    subgoal for st st1 rows1 bs1 using auto1[of st st1 rows1 bs1] by blast
    done
qed

lemma exampleObjects_wellFormed: "wellFormedSource exampleObjects"
  by (simp add: wellFormedSource_def exampleObjects_def allocate_def recordKey_def dated_def
      getProp_def date_eval)

theorem matches_are_bounded_witness:
  "wellFormedSource exampleObjects
   \<and> (\<exists>st0 st' rows' bs.
         processCSV initialState (allocate exampleObjects) = Returns st0
       \<and> processNextRow (\<lambda>i. 0) 0 st0 exampleRows 0 None = Returns (st', rows', bs)
       \<and> totalMatches st' = length bs \<and> length bs \<le> 5 \<and> length bs \<le> 3
       \<and> distinct (map (\<lambda>b. snd (snd b)) bs))"
proof -
  from matches_are_bounded[OF exampleObjects_wellFormed, of "\<lambda>i. 0" 0 exampleRows]
  obtain st0 st' rows' bs where
    f: "processCSV initialState (allocate exampleObjects) = Returns st0"
    "processNextRow (\<lambda>i. 0) 0 st0 exampleRows 0 None = Returns (st', rows', bs)"
    "totalMatches st' = length bs" "length bs \<le> length exampleRows"
    "length bs \<le> length exampleObjects" "distinct (map (\<lambda>b. snd (snd b)) bs)"
    by (elim exE conjE) (rule that, assumption+)
  have l: "length exampleRows = 5" "length exampleObjects = 3"
    by (simp_all add: exampleRows_def exampleObjects_def)
  from f(4,5) have "length bs \<le> 5" "length bs \<le> 3"
    by (simp_all only: l)
  with f have "\<exists>st0 st' rows' bs.
         processCSV initialState (allocate exampleObjects) = Returns st0
       \<and> processNextRow (\<lambda>i. 0) 0 st0 exampleRows 0 None = Returns (st', rows', bs)
       \<and> totalMatches st' = length bs \<and> length bs \<le> 5 \<and> length bs \<le> 3
       \<and> distinct (map (\<lambda>b. snd (snd b)) bs)"
    by (intro exI conjI)
  with exampleObjects_wellFormed show ?thesis ..
qed

text \<open>
  One record and two rows of its key, in \<^verbatim>\<open>browser-autofiller.js\<close>: both rows are filled
  from the one record, and two matches are counted.
\<close>

definition twoRows :: "row list" where
  "twoRows = [tableRow ''A12'' ''31/12/2025'' [], tableRow ''A12'' ''31/12/2025'' []]"

lemma twoRows_keys:
  "rowKey (twoRows ! 0) = Some ''A12|31/12/2025''" "rowKey (twoRows ! 1) = Some ''A12|31/12/2025''"
  by (simp_all add: twoRows_def tableRow_def rowKey_def blank_def trimmedValue_def falsy_def
      js_trim_def isWhiteSpace_def)

definition singleRecord :: source_record where
  "singleRecord = \<lparr>oid = 0, props = hd exampleObjects\<rparr>"

lemma singleRecord_allocated: "allocate [hd exampleObjects] = [singleRecord]"
  by (simp add: allocate_def singleRecord_def)

lemma singleRecord_key: "recordKey singleRecord = Some ''A12|31/12/2025''"
  by (simp add: singleRecord_def exampleObjects_def recordKey_def getProp_def js_trim_def
      isWhiteSpace_def)

lemma singleRecord_wellFormed: "wellFormedSource [hd exampleObjects]"
  unfolding wellFormedSource_def singleRecord_allocated
  by (simp add: singleRecord_key) (simp add: singleRecord_def exampleObjects_def dated_def
      getProp_def date_eval)

theorem autofiller_reuses_a_record:
  "\<exists>st0 st' rows' bs.
      processCSV initialState (allocate [hd exampleObjects]) = Returns st0
    \<and> processNextRow_autofiller st0 twoRows 0 = (st', rows', bs)
    \<and> totalMatches st' = 2
    \<and> length (filter (\<lambda>r. recordKey r = Some ''A12|31/12/2025'') (allocate [hd exampleObjects])) = 1
    \<and> map (\<lambda>b. oid (snd (snd b))) bs = [0, 0]"
proof -
  define key where "key = ''A12|31/12/2025''"
  define c where "c = singleRecord"
  from wellFormedSource_index[OF singleRecord_wellFormed] obtain st0 where
    csv: "processCSV initialState (allocate [hd exampleObjects]) = Returns st0"
    and zero: "totalMatches st0 = 0"
    and b0: "\<And>k. bucket st0 k = filter (\<lambda>r. recordKey r = Some k) (allocate [hd exampleObjects])"
    by blast
  have kc: "recordKey c = Some key"
    unfolding c_def key_def by (rule singleRecord_key)
  have one: "length (filter (\<lambda>r. recordKey r = Some key) (allocate [hd exampleObjects])) = 1"
    using kc by (simp add: singleRecord_allocated c_def)
  have bk: "bucket st0 key = [c]"
    using kc by (simp add: b0 singleRecord_allocated c_def)
  have keys: "rowKey (twoRows ! 0) = Some key" "rowKey (twoRows ! 1) = Some key"
    unfolding key_def by (rule twoRows_keys)+
  have len: "length twoRows = 2"
    by (simp add: twoRows_def)
  define st1 where "st1 = st0\<lparr>totalMatches := totalMatches st0 + 1\<rparr>"
  define st2 where "st2 = st1\<lparr>totalMatches := totalMatches st1 + 1\<rparr>"
  define rows1 where "rows1 = twoRows[0 := fillFields_autofiller (twoRows ! 0) c]"
  define rows2 where "rows2 = rows1[1 := fillFields_autofiller (rows1 ! 1) c]"
  have bk1: "bucket st1 key = [c]"
    using bk by (simp add: bucket_def st1_def)
  have len1: "length rows1 = 2" and len2: "length rows2 = 2"
    by (simp_all add: rows1_def rows2_def len)
  have k1: "rowKey (rows1 ! 1) = Some key"
    using keys(2) by (simp add: rows1_def)
  have s2: "processNextRow_autofiller st2 rows2 (1 + 1) = (st2, rows2, [])"
    by (rule autofiller_done) (simp add: len2)
  have "processNextRow_autofiller st1 rows1 1 =
     (case processNextRow_autofiller st2 rows2 (1 + 1) of
        (st', rows', bs) \<Rightarrow> (st', rows', (1, key, c) # bs))"
    using autofiller_candidates[of 1 rows1 key st1] k1 bk1 len1
    by (simp add: chooseCandidate_single st2_def rows2_def)
  then have s1: "processNextRow_autofiller st1 rows1 (0 + 1) = (st2, rows2, [(1, key, c)])"
    by (simp only: s2 prod.case add_0)
  have "processNextRow_autofiller st0 twoRows 0 =
     (case processNextRow_autofiller st1 rows1 (0 + 1) of
        (st', rows', bs) \<Rightarrow> (st', rows', (0, key, c) # bs))"
    using autofiller_candidates[of 0 twoRows key st0] keys(1) bk len
    by (simp add: chooseCandidate_single st1_def rows1_def)
  then have s0: "processNextRow_autofiller st0 twoRows 0
                      = (st2, rows2, [(0, key, c), (1, key, c)])"
    by (simp only: s1 prod.case)
  have t: "totalMatches st2 = 2"
    using zero by (simp add: st2_def st1_def)
  have o: "map (\<lambda>b. oid (snd (snd b))) [(0, key, c), (1, key, c)] = [0, 0]"
    by (simp add: c_def singleRecord_def)
  show ?thesis
    apply (rule exI[of _ st0], rule exI[of _ st2], rule exI[of _ rows2])
    apply (rule exI[of _ "[(0, key, c), (1, key, c)]"])
    using csv s0 t one o unfolding key_def
    by (intro conjI)
qed

section \<open>The tie-break\<close>

text \<open>
  Row \<open>i\<close> is filled from record \<open>c\<close>, which is consumed: the fill of the row from \<open>c\<close>
  returns; the traversal continues at the next row from the state in which the counter is
  one more and \<open>c\<close> is removed from the bucket of the key; the traversal returns with
  the binding of row \<open>i\<close> to \<open>c\<close> first; and at the end the three inputs of row \<open>i\<close> hold
  the values of \<open>c\<close>.
\<close>

definition fillsFrom ::
  "(nat \<Rightarrow> int) \<Rightarrow> int \<Rightarrow> state \<Rightarrow> row list \<Rightarrow> nat \<Rightarrow> string option \<Rightarrow> string \<Rightarrow> source_record \<Rightarrow> bool"
where
  "fillsFrom clock tza st rows i prev key c =
     (\<exists>r2 st' rows' bs.
        fillFields (clock i) tza (bordered prev (rows ! i)) c = Returns r2
      \<and> processNextRow clock tza (consumed st key c) (rows[i := r2]) (i + 1)
            (trimmedValue (chick_number (rows ! i))) = Returns (st', rows', bs)
      \<and> processNextRow clock tza st rows i prev = Returns (st', rows', (i, key, c) # bs)
      \<and> inputs (rows' ! i) = inputs (writeInputs (rows ! i) c)
      \<and> bucket (consumed st key c) key = remove1 c (bucket st key)
      \<and> totalMatches (consumed st key c) = totalMatches st + 1)"

lemma fillsFrom_chosen:
  assumes "i < length rows" and "rowKey (rows ! i) = Some key" and "bucket st key \<noteq> []"
    and "dated_index st"
  shows "fillsFrom clock tza st rows i prev key
           (chooseCandidate (trimmedValue (date_from (rows ! i))) (bucket st key))"
proof -
  let ?c = "chooseCandidate (trimmedValue (date_from (rows ! i))) (bucket st key)"
  from assms(3) have "?c \<in> set (bucket st key)"
    by (rule chooseCandidate_mem)
  with assms(4) have "dated ?c"
    by (auto simp: dated_index_def list_all_iff)
  from fillFields_dated[OF this] obtain r2 where
    fill: "fillFields (clock i) tza (bordered prev (rows ! i)) ?c = Returns r2" by blast
  from assms(4) have "dated_index (consumed st key ?c)"
    by (rule dated_index_consumed)
  from traversal_returns[OF this] obtain st' rows' bs where
    rest: "processNextRow clock tza (consumed st key ?c) (rows[i := r2]) (i + 1)
             (trimmedValue (chick_number (rows ! i))) = Returns (st', rows', bs)"
    by (metis prod_cases3)
  from fill rest have whole:
    "processNextRow clock tza st rows i prev = Returns (st', rows', (i, key, ?c) # bs)"
    by (simp add: processNextRow_candidates[OF assms(1-3)] bound_def)
  from traversal_prefix[OF rest, of i] assms(1) have "rows' ! i = r2" by simp
  with inputs_fillFields[OF fill] have inp: "inputs (rows' ! i) = inputs (writeInputs (rows ! i) ?c)"
    by (simp add: inputs_writeInputs_bordered)
  have "bucket (consumed st key ?c) key = remove1 ?c (bucket st key)"
    by (simp add: bucket_consumed)
  moreover have "totalMatches (consumed st key ?c) = totalMatches st + 1"
    by (rule totalMatches_consumed)
  ultimately show ?thesis
    unfolding fillsFrom_def using fill rest whole inp by blast
qed

text \<open>
  Claim C2. For every destination row whose key has more than one candidate in its
  bucket (the index being dated, so that fills return): the first candidate in bucket order
  whose trimmed period start equals the row's own trimmed period start, and so the one
  candidate with that period start when there is only one, is the candidate consumed and
  written; when no candidate has that period start, the first candidate of the bucket is
  consumed and written.
\<close>

theorem tie_break_by_period_start:
  assumes "i < length rows" and "rowKey (rows ! i) = Some key"
    and "1 < length (bucket st key)" and "dated_index st"
  shows "(\<forall>j. j < length (bucket st key)
            \<and> startMatches (trimmedValue (date_from (rows ! i))) (bucket st key ! j)
            \<and> (\<forall>j'<j. \<not> startMatches (trimmedValue (date_from (rows ! i))) (bucket st key ! j'))
          \<longrightarrow> fillsFrom clock tza st rows i prev key (bucket st key ! j))
     \<and> ((\<forall>j<length (bucket st key).
             \<not> startMatches (trimmedValue (date_from (rows ! i))) (bucket st key ! j))
          \<longrightarrow> fillsFrom clock tza st rows i prev key (bucket st key ! 0))"
proof -
  let ?sv = "trimmedValue (date_from (rows ! i))"
  from assms(3) have ne: "bucket st key \<noteq> []" by auto
  note chosen = fillsFrom_chosen[OF assms(1,2) ne assms(4), of clock tza prev]
  have first: "fillsFrom clock tza st rows i prev key (bucket st key ! j)"
    if "j < length (bucket st key) \<and> startMatches ?sv (bucket st key ! j)
          \<and> (\<forall>j'<j. \<not> startMatches ?sv (bucket st key ! j'))" for j
  proof -
    from that have "chooseCandidate ?sv (bucket st key) = bucket st key ! j"
      by (intro chooseCandidate_first_match) simp_all
    with chosen show ?thesis by simp
  qed
  have none: "fillsFrom clock tza st rows i prev key (bucket st key ! 0)"
    if "\<forall>j<length (bucket st key). \<not> startMatches ?sv (bucket st key ! j)"
  proof -
    from that have "chooseCandidate ?sv (bucket st key) = hd (bucket st key)"
      by (rule chooseCandidate_no_match)
    also from ne have "\<dots> = bucket st key ! 0"
      by (simp add: hd_conv_nth)
    finally show ?thesis using chosen by simp
  qed
  from first none show ?thesis by blast
qed

subsection \<open>The end-to-end scenario\<close>

definition exampleIndex :: state where
  "exampleIndex =
     (case processCSV initialState exampleData of
        Returns st \<Rightarrow> st
      | Throws \<Rightarrow> initialState
      | Diverges \<Rightarrow> initialState)"

lemma exampleIndex_facts:
  "bucket exampleIndex k = filter (\<lambda>r. recordKey r = Some k) exampleData"
  "dated_index exampleIndex" "wf_index exampleIndex" "totalMatches exampleIndex = 0"
proof -
  from wellFormedSource_index[OF exampleObjects_wellFormed] obtain st0 where
    "processCSV initialState exampleData = Returns st0" "totalMatches st0 = 0"
    "\<And>k. bucket st0 k = filter (\<lambda>r. recordKey r = Some k) exampleData"
    "wf_index st0" "dated_index st0"
    unfolding exampleData_def by blast
  then show "bucket exampleIndex k = filter (\<lambda>r. recordKey r = Some k) exampleData"
    and "dated_index exampleIndex" and "wf_index exampleIndex" and "totalMatches exampleIndex = 0"
    by (simp_all add: exampleIndex_def)
qed

definition firstRecord :: source_record where
  "firstRecord = \<lparr>oid = 0, props = exampleObjects ! 0\<rparr>"

definition secondRecord :: source_record where
  "secondRecord = \<lparr>oid = 1, props = exampleObjects ! 1\<rparr>"

definition thirdRecord :: source_record where
  "thirdRecord = \<lparr>oid = 2, props = exampleObjects ! 2\<rparr>"

lemma exampleData_records: "exampleData = [firstRecord, secondRecord, thirdRecord]"
  by (simp add: exampleData_def allocate_def exampleObjects_def firstRecord_def secondRecord_def
      thirdRecord_def)

lemma example_keys:
  "recordKey firstRecord = Some ''A12|31/12/2025''" "recordKey secondRecord = Some ''A12|31/12/2025''"
  "recordKey thirdRecord = Some ''B7|30/06/2025''"
  by (simp_all add: firstRecord_def secondRecord_def thirdRecord_def exampleObjects_def
      recordKey_def getProp_def js_trim_def isWhiteSpace_def)

lemma exampleIndex_A12: "bucket exampleIndex ''A12|31/12/2025'' = [firstRecord, secondRecord]"
  unfolding exampleIndex_facts(1) exampleData_records
  by (simp add: example_keys)

lemma exampleRows_first:
  "0 < length exampleRows" "rowKey (exampleRows ! 0) = Some ''A12|31/12/2025''"
  "trimmedValue (date_from (exampleRows ! 0)) = Some ''01/10/2025''"
  by (simp_all add: exampleRows_def tableRow_def rowKey_def blank_def trimmedValue_def falsy_def
      js_trim_def isWhiteSpace_def)

lemma example_starts:
  "\<not> startMatches (Some ''01/10/2025'') firstRecord"
  "startMatches (Some ''01/10/2025'') secondRecord"
  by (simp_all add: startMatches_def getProp_def exampleObjects_def js_trim_def isWhiteSpace_def
      firstRecord_def secondRecord_def)

theorem tie_break_by_period_start_witness:
  "0 < length exampleRows \<and> rowKey (exampleRows ! 0) = Some ''A12|31/12/2025''
   \<and> 1 < length (bucket exampleIndex ''A12|31/12/2025'') \<and> dated_index exampleIndex
   \<and> fillsFrom (\<lambda>i. 0) 0 exampleIndex exampleRows 0 None ''A12|31/12/2025'' secondRecord"
proof -
  have many: "1 < length (bucket exampleIndex ''A12|31/12/2025'')"
    by (simp add: exampleIndex_A12)
  note t = tie_break_by_period_start[OF exampleRows_first(1,2) many exampleIndex_facts(2),
      of "\<lambda>i. 0" 0 None, THEN conjunct1, rule_format, of 1]
  have "fillsFrom (\<lambda>i. 0) 0 exampleIndex exampleRows 0 None ''A12|31/12/2025''
          (bucket exampleIndex ''A12|31/12/2025'' ! 1)"
    by (rule t) (simp add: exampleIndex_A12 exampleRows_first(3) example_starts)
  then have "fillsFrom (\<lambda>i. 0) 0 exampleIndex exampleRows 0 None ''A12|31/12/2025'' secondRecord"
    by (simp add: exampleIndex_A12)
  with exampleRows_first(1,2) many exampleIndex_facts(2) show ?thesis
    by (intro conjI)
qed

section \<open>Staleness\<close>

lemma isOldPeriod_iff: "isOldPeriod now (Some e) = (90 * msPerDay < now - e)"
proof -
  have "((90::rat) < of_int (now - e) / (1000 * 60 * 60 * 24))
          = ((90::rat) * (1000 * 60 * 60 * 24) < of_int (now - e))"
    by (rule pos_less_divide_eq) simp
  also have "(90::rat) * (1000 * 60 * 60 * 24) = of_int (90 * msPerDay)"
    by (simp add: msPerDay_def)
  also have "((of_int (90 * msPerDay) :: rat) < of_int (now - e)) = (90 * msPerDay < now - e)"
    by (rule of_int_less_iff)
  finally show ?thesis
    by (simp add: isOldPeriod_def)
qed

lemma styled_base:
  "isBasePeriod c \<Longrightarrow>
     fontWeight (styled now r1 c) = ''bold'' \<and> borderLeft (styled now r1 c) = ''4px solid purple''
     \<and> backgroundColor (styled now r1 c) = backgroundColor r1"
  by (simp add: styled_def)

lemma styled_not_base:
  "\<not> isBasePeriod c \<Longrightarrow>
     backgroundColor (styled now r1 c)
       = (if isOldPeriod now (parseDate (the (getProp c ''Claim Until'')))
          then ''rgba(255, 0, 0, 0.15)'' else ''rgba(76, 175, 80, 0.15)'')
     \<and> fontWeight (styled now r1 c) = fontWeight r1 \<and> borderLeft (styled now r1 c) = borderLeft r1"
  by (simp add: styled_def)

lemma writeInputs_style:
  "fontWeight (writeInputs r c) = fontWeight r" "borderLeft (writeInputs r c) = borderLeft r"
  "backgroundColor (writeInputs r c) = backgroundColor r"
  by (simp_all add: writeInputs_def)

text \<open>
  Claim C4. For every filled record whose period end parses: the record is stale, in the
  sense of the script's \<^verbatim>\<open>isOldPeriod\<close>, exactly when the clock is more than 90 days (of
  86400000 ms) past the parsed period end; a period end exactly 90 days before now, or
  less, is not stale. A base record gets the base style whatever its age; a record that
  is not base gets the stale background exactly when it is stale, and the fresh
  background otherwise.
\<close>

theorem stale_after_ninety_days:
  assumes "fillFields now tza r c = Returns r2"
    and "getProp c ''Claim Until'' = Some claimUntil" and "parseDate claimUntil = Some e"
  shows "isOldPeriod now (parseDate claimUntil) = (90 * msPerDay < now - e)
     \<and> (now - e = 90 * msPerDay \<longrightarrow> \<not> isOldPeriod now (parseDate claimUntil))
     \<and> (isBasePeriod c \<longrightarrow>
           fontWeight r2 = ''bold'' \<and> borderLeft r2 = ''4px solid purple''
           \<and> backgroundColor r2 = backgroundColor r)
     \<and> (\<not> isBasePeriod c \<longrightarrow>
           (backgroundColor r2 = ''rgba(255, 0, 0, 0.15)'') = (90 * msPerDay < now - e)
           \<and> (backgroundColor r2 = ''rgba(76, 175, 80, 0.15)'') = (now - e \<le> 90 * msPerDay)
           \<and> fontWeight r2 = fontWeight r \<and> borderLeft r2 = borderLeft r)"
proof -
  from fillFields_shape[OF assms(1)] obtain lt where
    r2: "r2 = (styled now (writeInputs r c) c)\<lparr>lastTd := lt\<rparr>" ..
  have old: "isOldPeriod now (parseDate claimUntil) = (90 * msPerDay < now - e)"
    by (simp add: assms(3) isOldPeriod_iff)
  have base: "fontWeight r2 = ''bold'' \<and> borderLeft r2 = ''4px solid purple''
           \<and> backgroundColor r2 = backgroundColor r" if "isBasePeriod c"
    using styled_base[OF that, of now "writeInputs r c"] by (simp add: r2 writeInputs_style)
  have other: "(backgroundColor r2 = ''rgba(255, 0, 0, 0.15)'') = (90 * msPerDay < now - e)
           \<and> (backgroundColor r2 = ''rgba(76, 175, 80, 0.15)'') = (now - e \<le> 90 * msPerDay)
           \<and> fontWeight r2 = fontWeight r \<and> borderLeft r2 = borderLeft r" if "\<not> isBasePeriod c"
  proof (cases "90 * msPerDay < now - e")
    case True
    with styled_not_base[OF that, of now "writeInputs r c"] old show ?thesis
      by (simp add: r2 writeInputs_style assms(2))
  next
    case False
    with styled_not_base[OF that, of now "writeInputs r c"] old show ?thesis
      by (simp add: r2 writeInputs_style assms(2))
  qed
  from old base other show ?thesis by simp
qed

lemma firstRecord_end:
  "getProp firstRecord ''Claim Until'' = Some ''31/12/2025''"
  "parseDate ''31/12/2025'' = Some 1767139200000" "\<not> isBasePeriod firstRecord"
  "dated firstRecord"
  by (simp_all add: firstRecord_def exampleObjects_def getProp_def date_eval isBasePeriod_def
      dated_def)

theorem stale_after_ninety_days_witness:
  "(\<exists>r2. fillFields (1767139200000 + 90 * msPerDay + 1) 0 (exampleRows ! 0) firstRecord = Returns r2
        \<and> backgroundColor r2 = ''rgba(255, 0, 0, 0.15)'')
   \<and> (\<exists>r2. fillFields (1767139200000 + 90 * msPerDay) 0 (exampleRows ! 0) firstRecord = Returns r2
        \<and> backgroundColor r2 = ''rgba(76, 175, 80, 0.15)'')"
proof -
  from fillFields_dated[OF firstRecord_end(4)] obtain r2 where
    f: "fillFields (1767139200000 + 90 * msPerDay + 1) 0 (exampleRows ! 0) firstRecord = Returns r2"
    by blast
  from stale_after_ninety_days[OF f firstRecord_end(1,2)] firstRecord_end(3)
  have "backgroundColor r2 = ''rgba(255, 0, 0, 0.15)''"
    by simp
  with f have a: "\<exists>r2. fillFields (1767139200000 + 90 * msPerDay + 1) 0 (exampleRows ! 0) firstRecord
        = Returns r2 \<and> backgroundColor r2 = ''rgba(255, 0, 0, 0.15)''"
    by blast
  from fillFields_dated[OF firstRecord_end(4)] obtain r3 where
    g: "fillFields (1767139200000 + 90 * msPerDay) 0 (exampleRows ! 0) firstRecord = Returns r3"
    by blast
  from stale_after_ninety_days[OF g firstRecord_end(1,2)] firstRecord_end(3)
  have "backgroundColor r3 = ''rgba(76, 175, 80, 0.15)''"
    by simp
  with g have b: "\<exists>r2. fillFields (1767139200000 + 90 * msPerDay) 0 (exampleRows ! 0) firstRecord
        = Returns r2 \<and> backgroundColor r2 = ''rgba(76, 175, 80, 0.15)''"
    by blast
  from a b show ?thesis ..
qed

section \<open>The holiday lookup\<close>

subsection \<open>Valid dates\<close>

lemma localDay_back: "localDay tza (t - msPerDay * m) = localDay tza t - m"
proof -
  have "(t + tza + (- m) * msPerDay) div msPerDay = - m + (t + tza) div msPerDay"
    by (rule div_mult_self1) (simp add: msPerDay_def)
  then show ?thesis
    by (simp add: localDay_def algebra_simps)
qed

text \<open>
  The walk from a valid date ends at the first Monday met going back one day at a time,
  the date itself included.
\<close>

lemma walk_back_to_monday:
  fixes t tza :: int
  defines "k \<equiv> (localDay tza t + 3) mod 7"
  shows "getFirstMondayBeforeOrOn tza (Some t) = Some (Some (t - msPerDay * k))"
    and "0 \<le> k" and "k < 7"
    and "getDay tza (Some (t - msPerDay * k)) = Some 1"
    and "0 \<le> m \<Longrightarrow> m < k \<Longrightarrow> getDay tza (Some (t - msPerDay * m)) \<noteq> Some 1"
proof -
  show "getFirstMondayBeforeOrOn tza (Some t) = Some (Some (t - msPerDay * k))"
    unfolding k_def by (rule getFirstMondayBeforeOrOn_valid)
  show k0: "0 \<le> k" and k7: "k < 7"
    unfolding k_def by simp_all
  have shift: "(localDay tza t - j + 3) mod 7 = (k - j) mod 7" for j
  proof -
    have "(localDay tza t - j + 3) mod 7 = (localDay tza t + 3 - j) mod 7"
      by (simp add: algebra_simps)
    also have "\<dots> = ((localDay tza t + 3) mod 7 - j) mod 7"
      by (simp add: mod_diff_left_eq)
    finally show ?thesis by (simp add: k_def)
  qed
  have "(localDay tza (t - msPerDay * k) + 3) mod 7 = 0"
    by (simp add: localDay_back shift)
  then show "getDay tza (Some (t - msPerDay * k)) = Some 1"
    by (simp add: getDay_def monday_iff)
  assume m: "0 \<le> m" "m < k"
  with k7 have "(k - m) mod 7 = k - m"
    by (intro mod_pos_pos_trivial) simp_all
  with m have "(localDay tza (t - msPerDay * m) + 3) mod 7 \<noteq> 0"
    by (simp add: localDay_back shift)
  then show "getDay tza (Some (t - msPerDay * m)) \<noteq> Some 1"
    by (simp add: getDay_def monday_iff)
qed

text \<open>The table as one list of named ranges, in the order in which the loops visit them.\<close>

definition holidayRanges :: "(string \<times> string \<times> string) list" where
  "holidayRanges = concat (map snd schoolHolidays)"

definition inRange :: "jsdate \<Rightarrow> string \<times> string \<times> string \<Rightarrow> bool" where
  "inRange date entry =
     (date_ge date (parseDate (fst (snd entry))) \<and> date_le date (parseDate (snd (snd entry))))"

lemma scanYear_find: "scanYear date entries = map_option fst (find (inRange date) entries)"
  by (induction entries) (auto simp: inRange_def)

lemma scanYear_append:
  "scanYear date (xs @ ys) = (case scanYear date xs of Some name \<Rightarrow> Some name | None \<Rightarrow> scanYear date ys)"
  by (induction xs) auto

lemma scanHolidays_flat: "scanHolidays date table = scanYear date (concat (map snd table))"
  by (induction table) (auto simp: scanYear_append split: option.splits)

lemma scanHolidays_first:
  "scanHolidays date schoolHolidays = map_option fst (find (inRange date) holidayRanges)"
  by (simp add: scanHolidays_flat scanYear_find holidayRanges_def)

lemma holidayRanges_names:
  "fst ` set holidayRanges
     = {''October Holidays'', ''Christmas Holidays'', ''February Holidays'', ''Easter Holidays''}"
  by (auto simp: holidayRanges_def schoolHolidays_def)

lemma table_has_no_summer: "map_option fst (find (inRange date) holidayRanges) \<noteq> Some ''Summer Holidays''"
proof
  assume "map_option fst (find (inRange date) holidayRanges) = Some ''Summer Holidays''"
  then obtain entry where "find (inRange date) holidayRanges = Some entry"
    and n: "fst entry = ''Summer Holidays''"
    by auto
  then have "entry \<in> set holidayRanges"
    by (auto simp: find_Some_iff)
  then have "fst entry \<in> fst ` set holidayRanges" by simp
  with n show False
    unfolding holidayRanges_names by simp
qed

text \<open>
  For every valid date the lookup returns: "Summer Holidays" exactly when the date lies
  from the first Monday on or before the date that \<^verbatim>\<open>new Date(year, 6, 1)\<close> denotes up to,
  but not including, the first Monday on or before \<^verbatim>\<open>new Date(year, 8, 1)\<close>; and
  otherwise the name of the first range of the table that holds the date, both ends
  included, or nothing. For a year outside 0 to 99 the two constructor dates are local
  midnight of 1 July and of 1 September of the date's own year.
\<close>

lemma holiday_lookup_valid:
  "getHolidayName tza (Some t) =
     Some (if summerStart tza t \<le> t \<and> t < summerEnd tza t then Some ''Summer Holidays''
           else map_option fst (find (inRange (Some t)) holidayRanges))"
  "(getHolidayName tza (Some t) = Some (Some ''Summer Holidays''))
     = (summerStart tza t \<le> t \<and> t < summerEnd tza t)"
  "getFirstMondayBeforeOrOn tza (newDate tza (getFullYear tza (Some t)) 6 1)
     = Some (Some (summerStart tza t))"
  "getFirstMondayBeforeOrOn tza (newDate tza (getFullYear tza (Some t)) 8 1)
     = Some (Some (summerEnd tza t))"
  "\<not> (0 \<le> YearFromDay (localDay tza t) \<and> YearFromDay (localDay tza t) \<le> 99) \<Longrightarrow>
     newDate tza (getFullYear tza (Some t)) 6 1
       = Some (MakeDay (YearFromDay (localDay tza t)) 6 1 * msPerDay - tza)
     \<and> newDate tza (getFullYear tza (Some t)) 8 1
       = Some (MakeDay (YearFromDay (localDay tza t)) 8 1 * msPerDay - tza)"
proof -
  show a: "getHolidayName tza (Some t) =
     Some (if summerStart tza t \<le> t \<and> t < summerEnd tza t then Some ''Summer Holidays''
           else map_option fst (find (inRange (Some t)) holidayRanges))"
    by (simp add: getHolidayName_valid scanHolidays_first)
  show "(getHolidayName tza (Some t) = Some (Some ''Summer Holidays''))
     = (summerStart tza t \<le> t \<and> t < summerEnd tza t)"
    unfolding a using table_has_no_summer[of "Some t"] by auto
  show "getFirstMondayBeforeOrOn tza (newDate tza (getFullYear tza (Some t)) 6 1)
     = Some (Some (summerStart tza t))"
    by (simp add: newDate_def getFullYear_def Let_def getFirstMondayBeforeOrOn_valid summerStart_def)
  show "getFirstMondayBeforeOrOn tza (newDate tza (getFullYear tza (Some t)) 8 1)
     = Some (Some (summerEnd tza t))"
    by (simp add: newDate_def getFullYear_def Let_def getFirstMondayBeforeOrOn_valid summerEnd_def)
  assume "\<not> (0 \<le> YearFromDay (localDay tza t) \<and> YearFromDay (localDay tza t) \<le> 99)"
  then show "newDate tza (getFullYear tza (Some t)) 6 1
       = Some (MakeDay (YearFromDay (localDay tza t)) 6 1 * msPerDay - tza)
     \<and> newDate tza (getFullYear tza (Some t)) 8 1
       = Some (MakeDay (YearFromDay (localDay tza t)) 8 1 * msPerDay - tza)"
    by (auto simp: newDate_def getFullYear_def Let_def)
qed

subsection \<open>The examples of the specification, in UTC\<close>

text \<open>The ranges of the table with their dates parsed, computed once.\<close>

definition parsedRanges :: "(string \<times> jsdate \<times> jsdate) list" where
  "parsedRanges =
     map (\<lambda>entry. (fst entry, parseDate (fst (snd entry)), parseDate (snd (snd entry))))
       holidayRanges"

definition holds :: "jsdate \<Rightarrow> string \<times> jsdate \<times> jsdate \<Rightarrow> bool" where
  "holds date p = (date_ge date (fst (snd p)) \<and> date_le date (snd (snd p)))"

lemma find_map_fst:
  "map_option fst (find P (map (\<lambda>x. (fst x, g x)) xs)) = map_option fst (find (\<lambda>x. P (fst x, g x)) xs)"
  by (induction xs) auto

lemma scan_parsed:
  "map_option fst (find (inRange date) holidayRanges) = map_option fst (find (holds date) parsedRanges)"
proof -
  have "inRange date = (\<lambda>x. holds date (fst x, parseDate (fst (snd x)), parseDate (snd (snd x))))"
    by (rule ext) (simp add: inRange_def holds_def)
  then show ?thesis
    unfolding parsedRanges_def by (simp only: find_map_fst)
qed

lemma parsedRanges_eval:
  "parsedRanges =
     [(''October Holidays'', Some 1730073600000, Some 1730419200000),
      (''Christmas Holidays'', Some 1734912000000, Some 1735862400000),
      (''February Holidays'', Some 1739750400000, Some 1740096000000),
      (''Easter Holidays'', Some 1744588800000, Some 1745539200000),
      (''October Holidays'', Some 1761523200000, Some 1761868800000),
      (''Christmas Holidays'', Some 1766361600000, Some 1767312000000),
      (''February Holidays'', Some 1771200000000, Some 1771545600000),
      (''Easter Holidays'', Some 1774828800000, Some 1775779200000)]"
  by (simp add: parsedRanges_def holidayRanges_def schoolHolidays_def date_eval)

lemma getHolidayName_eval:
  "getHolidayName tza (Some t) =
     Some (if summerStart tza t \<le> t \<and> t < summerEnd tza t then Some ''Summer Holidays''
           else map_option fst (find (holds (Some t)) parsedRanges))"
  by (simp only: holiday_lookup_valid(1) scan_parsed)

lemma example_dates:
  "parseDate ''01/07/2025'' = Some 1751328000000"
  "parseDate ''30/06/2025'' = Some 1751241600000"
  "parseDate ''29/06/2025'' = Some 1751155200000"
  "parseDate ''31/08/2025'' = Some 1756598400000"
  "parseDate ''01/09/2025'' = Some 1756684800000"
  "parseDate ''01/11/2024'' = Some 1730419200000"
  "parseDate ''02/01/2026'' = Some 1767312000000"
  by (simp_all add: date_eval)

lemma summer_2025:
  "summerStart 0 1751328000000 = 1751241600000" "summerEnd 0 1751328000000 = 1756684800000"
  by (simp_all add: summerStart_def summerEnd_def date_eval Let_def)

lemmas holiday_eval =
  getHolidayName_eval summerStart_def summerEnd_def parsedRanges_eval holds_def date_eval Let_def

lemma holiday_examples:
  "getHolidayName 0 (parseDate ''01/07/2025'') = Some (Some ''Summer Holidays'')"
  "getHolidayName 0 (parseDate ''30/06/2025'') = Some (Some ''Summer Holidays'')"
  "getHolidayName 0 (parseDate ''29/06/2025'') = Some None"
  "getHolidayName 0 (parseDate ''31/08/2025'') = Some (Some ''Summer Holidays'')"
  "getHolidayName 0 (parseDate ''01/09/2025'') = Some None"
  "getHolidayName 0 (parseDate ''01/11/2024'') = Some (Some ''October Holidays'')"
  "getHolidayName 0 (parseDate ''02/01/2026'') = Some (Some ''Christmas Holidays'')"
  unfolding example_dates by (simp_all add: holiday_eval)

subsection \<open>Dates on which the lookup goes wrong\<close>

text \<open>
  Claim C5 holds of the code for the valid dates whose local year lies outside 0 to 99
  (lemmas \<open>holiday_lookup_valid\<close>, \<open>walk_back_to_monday\<close> and \<open>holiday_examples\<close>).
  It fails in two places. A record whose period start does not parse, an empty cell for
  one, gives an Invalid Date; \<^verbatim>\<open>fillFields\<close> guards the lookup with \<^verbatim>\<open>if (startDate)\<close>,
  which a \<^verbatim>\<open>Date\<close> object always passes; \<^verbatim>\<open>getDay()\<close> is then NaN, the walk to Monday
  never ends, and neither the lookup nor the fill of a row with a last cell returns. And
  for a date in the years 0 to 99, \<^verbatim>\<open>new Date(year, 6, 1)\<close> denotes 1 July of 1900 + year:
  1 July 0050, which lies between the Mondays on or before 1 July and 1 September of its
  own year, is looked up against the summer of 1950 and matches nothing.
\<close>

definition undatedRecord :: source_record where
  "undatedRecord =
     \<lparr>oid = 0, props = [(''CHICK'', ''B7''), (''Claim Until'', ''30/06/2025''),
        (''Funding Start'', []), (''Weekly Total'', ''15''), (''Hour rate'', ''4.25'')]\<rparr>"

theorem holiday_lookup_does_not_return:
  "parseDate [] = None
   \<and> getHolidayName tza (parseDate []) = None
   \<and> fillFields now tza (tableRow ''B7'' ''30/06/2025'' []) undatedRecord = Diverges
   \<and> getFullYear 0 (parseDate ''01/07/0050'') = Some 50
   \<and> newDate 0 (getFullYear 0 (parseDate ''01/07/0050'')) 6 1 = parseDate ''01/07/1950''
   \<and> getHolidayName 0 (parseDate ''01/07/0050'') = Some None"
proof -
  have p: "parseDate [] = None"
    by (simp add: date_eval)
  have h: "getHolidayName tza None = None"
    by (simp add: getHolidayName_def getFullYear_def newDate_def getFirstMondayBeforeOrOn_invalid)
  have f: "fillFields now tza (tableRow ''B7'' ''30/06/2025'' []) undatedRecord = Diverges"
    unfolding fillFields_eq
    by (simp add: undatedRecord_def getProp_def tableRow_def p h)
  have y: "parseDate ''01/07/0050'' = Some (- 60573657600000)"
    "getFullYear 0 (Some (- 60573657600000)) = Some 50"
    "newDate 0 (Some 50) 6 1 = parseDate ''01/07/1950''"
    by (simp_all add: date_eval)
  have g: "getHolidayName 0 (Some (- 60573657600000)) = Some None"
    by (simp add: holiday_eval)
  from p h f y g show ?thesis
    by simp
qed

end
